theory Spec2Isabelle
  imports Complex_Main "HOL-Library.Word" "HOL-Library.Multiset"
begin

unbundle bit_operations_syntax

section \<open>Data model of MyBot.cpp\<close>

text \<open>
  The bot is written against the Desdemona framework: \<open>Turn\<close>, \<open>Move\<close> and
  \<open>OthelloBoard\<close> are framework types. \<open>Turn\<close> has the two sides the bot
  distinguishes, a \<open>Move\<close> is a pair of \<open>int\<close> coordinates with structural equality
  (\<open>std::list::remove\<close> compares moves with \<open>==\<close>).
\<close>

datatype Turn = BLACK | RED

datatype Move = Move (move_x: int) (move_y: int)

text \<open>
  \<open>struct TTEntry { uint64_t hash; int depth; int score; Move bestMove; }\<close>.
  The selectors carry the prefix \<open>entry_\<close>, since \<open>hash\<close>, \<open>depth\<close> and \<open>score\<close> are
  also names of local variables of the source.
\<close>

datatype TTEntry = TTEntry (entry_hash: "64 word") (entry_depth: int) (entry_score: int)
  (entry_bestMove: Move)

text \<open>\<open>struct Weights\<close>: five \<open>double\<close> fields.\<close>

record Weights =
  w_position :: rat
  w_mobility :: rat
  w_corner :: rat
  w_stability :: rat
  w_parity :: rat

text \<open>
  What the translation unit takes from outside. The board type \<open>'b\<close> stands for
  \<open>OthelloBoard\<close>; the bot only ever calls the five methods below on it, on a
  \<open>const\<close> reference or on a private copy, so a board is a value here.
  \<^item> \<open>makeMove\<close> mutates a copy of the board and throws on a move the framework
    rejects: the result is \<open>Some\<close> of the new board, or \<open>None\<close> for the exception.
  \<^item> \<open>zobristTable i j\<close> is the table \<open>zobristTable[64][3]\<close> that the constructor of
    \<open>ZobristHash\<close> fills from \<open>mt19937_64 rng(314159265)\<close>.
  \<^item> \<open>std_sort comp xs\<close> is \<open>std::sort\<close> of the standard library applied to a
    vector of (score, move) pairs with the comparator \<open>comp\<close>.
  \<^item> \<open>fround\<close> is the rounding of a real number to the nearest \<open>double\<close>: every
    \<open>double\<close> literal, product and sum of the source is rounded by it.
\<close>

record 'b externals =
  getValidMoves :: "'b \<Rightarrow> Turn \<Rightarrow> Move list"
  validateMove :: "'b \<Rightarrow> Turn \<Rightarrow> Move \<Rightarrow> bool"
  makeMove :: "'b \<Rightarrow> Turn \<Rightarrow> Move \<Rightarrow> 'b option"
  getBlackCount :: "'b \<Rightarrow> int"
  getRedCount :: "'b \<Rightarrow> int"
  zobristTable :: "nat \<Rightarrow> nat \<Rightarrow> 64 word"
  std_sort :: "(int \<times> Move \<Rightarrow> int \<times> Move \<Rightarrow> bool) \<Rightarrow> (int \<times> Move) list \<Rightarrow> (int \<times> Move) list"
  fround :: "rat \<Rightarrow> rat"

text \<open>
  The global state of the search: \<open>timeoutFlag\<close>, \<open>transpositionTable\<close>
  (an \<open>unordered_map<uint64_t, TTEntry>\<close>), and the clock. \<open>isTimeUp\<close> reads the
  clock only while \<open>timeoutFlag\<close> is unset and sets the flag at the first reading at or
  past \<open>TIME_LIMIT\<close>, so all that a run can observe of the clock is how many readings
  stay below the limit: \<open>clock = Some n\<close> says that the next \<open>n\<close> readings do and the
  one after them does not, \<open>clock = None\<close> that no reading reaches the limit.
\<close>

record SearchState =
  timeoutFlag :: bool
  clock :: "nat option"
  transpositionTable :: "64 word \<Rightarrow> TTEntry option"

section \<open>Constants\<close>

text \<open>\<open>const int INF = 1000000\<close>; the name \<open>INF\<close> is taken in HOL.\<close>

definition INF_score :: int where
  "INF_score = 1000000"

definition MAX_DEPTH :: int where
  "MAX_DEPTH = 20"

definition POSITION_WEIGHTS_rows :: "int list list" where
  "POSITION_WEIGHTS_rows =
    [[100, -20, 10,  5,  5, 10, -20, 100],
     [-20, -50, -2, -2, -2, -2, -50, -20],
     [ 10,  -2,  1,  0,  0,  1,  -2,  10],
     [  5,  -2,  0, -1, -1,  0,  -2,   5],
     [  5,  -2,  0, -1, -1,  0,  -2,   5],
     [ 10,  -2,  1,  0,  0,  1,  -2,  10],
     [-20, -50, -2, -2, -2, -2, -50, -20],
     [100, -20, 10,  5,  5, 10, -20, 100]]"

text \<open>
  \<open>POSITION_WEIGHTS[i][j]\<close>. The source indexes the array with the coordinates of
  moves the framework enumerated, which lie in \<open>0..7\<close>; an index outside the array is
  undefined behaviour in C++ and reads as \<open>0\<close> here.
\<close>

definition POSITION_WEIGHTS :: "int \<Rightarrow> int \<Rightarrow> int" where
  "POSITION_WEIGHTS i j =
    (if 0 \<le> i \<and> i < 8 \<and> 0 \<le> j \<and> j < 8 then POSITION_WEIGHTS_rows ! nat i ! nat j else 0)"

section \<open>Zobrist hashing\<close>

text \<open>
  \<open>ZobristHash::hash\<close>. The piece counts are not negative, so C++'s \<open>%\<close> and \<open>mod\<close>
  agree on them.
\<close>

definition zobrist_hash :: "'b externals \<Rightarrow> 'b \<Rightarrow> 64 word" where
  "zobrist_hash env board =
    (let h0 = 0 XOR zobristTable env (nat (getBlackCount env board mod 64)) 0;
         h1 = h0 XOR zobristTable env (nat (getRedCount env board mod 64)) 1;
         h2 = fold (\<lambda>m h. h XOR zobristTable env (nat ((move_x m * 8 + move_y m) mod 64)) 0)
                (getValidMoves env board BLACK) h1
     in fold (\<lambda>m h. h XOR zobristTable env (nat ((move_x m * 8 + move_y m) mod 64)) 1)
          (getValidMoves env board RED) h2)"

section \<open>Utility functions\<close>

definition opponent :: "Turn \<Rightarrow> Turn" where
  "opponent t = (if t = BLACK then RED else BLACK)"

definition emptySquares :: "'b externals \<Rightarrow> 'b \<Rightarrow> int" where
  "emptySquares env board = 64 - getBlackCount env board - getRedCount env board"

text \<open>\<open>isTimeUp\<close> returns its answer and the state it leaves.\<close>

definition isTimeUp :: "SearchState \<Rightarrow> bool \<times> SearchState" where
  "isTimeUp s =
    (if timeoutFlag s then (True, s)
     else (case clock s of
             None \<Rightarrow> (False, s)
           | Some 0 \<Rightarrow> (True, s\<lparr>timeoutFlag := True\<rparr>)
           | Some (Suc n) \<Rightarrow> (False, s\<lparr>clock := Some n\<rparr>)))"

definition isCorner :: "Move \<Rightarrow> bool" where
  "isCorner m \<longleftrightarrow>
    (move_x m = 0 \<and> move_y m = 0) \<or> (move_x m = 0 \<and> move_y m = 7) \<or>
    (move_x m = 7 \<and> move_y m = 0) \<or> (move_x m = 7 \<and> move_y m = 7)"

definition isXSquare :: "Move \<Rightarrow> bool" where
  "isXSquare m \<longleftrightarrow>
    (move_x m = 1 \<and> move_y m = 1) \<or> (move_x m = 1 \<and> move_y m = 6) \<or>
    (move_x m = 6 \<and> move_y m = 1) \<or> (move_x m = 6 \<and> move_y m = 6)"

definition isCSquare :: "Move \<Rightarrow> bool" where
  "isCSquare m \<longleftrightarrow>
    ((move_x m = 0 \<or> move_x m = 7) \<and> (move_y m = 1 \<or> move_y m = 6)) \<or>
    ((move_y m = 0 \<or> move_y m = 7) \<and> (move_x m = 1 \<or> move_x m = 6))"

definition isEdge :: "Move \<Rightarrow> bool" where
  "isEdge m \<longleftrightarrow> move_x m = 0 \<or> move_x m = 7 \<or> move_y m = 0 \<or> move_y m = 7"

text \<open>
  \<open>double\<close> arithmetic: a literal, a product and a sum are each the exact value
  rounded by \<open>fround\<close>; an \<open>int\<close> converts exactly; the cast \<open>(int)\<close> truncates
  toward zero.
\<close>

definition dlit :: "'b externals \<Rightarrow> rat \<Rightarrow> rat" where
  "dlit env q = fround env q"

definition dmul :: "'b externals \<Rightarrow> rat \<Rightarrow> rat \<Rightarrow> rat" where
  "dmul env a b = fround env (a * b)"

definition dadd :: "'b externals \<Rightarrow> rat \<Rightarrow> rat \<Rightarrow> rat" where
  "dadd env a b = fround env (a + b)"

definition int_cast :: "rat \<Rightarrow> int" where
  "int_cast q = (if 0 \<le> q then \<lfloor>q\<rfloor> else \<lceil>q\<rceil>)"

definition getWeights :: "'b externals \<Rightarrow> int \<Rightarrow> Weights" where
  "getWeights env n_empty =
    (if n_empty > 48 then
       \<lparr>w_position = dlit env (40/100), w_mobility = dlit env (35/100),
        w_corner = dlit env (15/100), w_stability = dlit env (10/100),
        w_parity = dlit env 0\<rparr>
     else if n_empty > 20 then
       \<lparr>w_position = dlit env (25/100), w_mobility = dlit env (25/100),
        w_corner = dlit env (20/100), w_stability = dlit env (20/100),
        w_parity = dlit env (10/100)\<rparr>
     else
       \<lparr>w_position = dlit env (10/100), w_mobility = dlit env (5/100),
        w_corner = dlit env (15/100), w_stability = dlit env (20/100),
        w_parity = dlit env (50/100)\<rparr>)"

section \<open>Evaluation function\<close>

text \<open>
  The body of the loop over the four corners in \<open>evaluateCorners\<close>: the change of
  \<open>score\<close> that one corner makes.
\<close>

definition nearCorner :: "int \<times> int \<Rightarrow> Move \<Rightarrow> bool" where
  "nearCorner corner mv \<longleftrightarrow>
    \<bar>move_x mv - fst corner\<bar> \<le> 1 \<and> \<bar>move_y mv - snd corner\<bar> \<le> 1"

definition cornerScore :: "'b externals \<Rightarrow> 'b \<Rightarrow> Turn \<Rightarrow> int \<times> int \<Rightarrow> int" where
  "cornerScore env board perspective corner =
    (let opp = opponent perspective;
         m = Move (fst corner) (snd corner);
         perspectiveCanPlay = validateMove env board perspective m;
         opponentCanPlay = validateMove env board opp m
     in if \<not> perspectiveCanPlay \<and> \<not> opponentCanPlay then
          (let myNearby = getValidMoves env board perspective;
               oppNearby = getValidMoves env board opp;
               myNear = int (length (filter (nearCorner corner) myNearby));
               oppNear = int (length (filter (nearCorner corner) oppNearby))
           in if myNear < oppNear then 100 else if oppNear < myNear then - 100 else 0)
        else 0)"

definition evaluateCorners :: "'b externals \<Rightarrow> 'b \<Rightarrow> Turn \<Rightarrow> int" where
  "evaluateCorners env board perspective =
    fold (\<lambda>corner score. score + cornerScore env board perspective corner)
      [(0, 0), (0, 7), (7, 0), (7, 7)] 0"

definition evaluatePositional :: "Move list \<Rightarrow> Move list \<Rightarrow> int" where
  "evaluatePositional myMoves oppMoves =
    (let score = fold (\<lambda>m score. score + POSITION_WEIGHTS (move_x m) (move_y m)) myMoves 0
     in fold (\<lambda>m score. score - POSITION_WEIGHTS (move_x m) (move_y m)) oppMoves score)"

definition safeEdge :: "Move \<Rightarrow> bool" where
  "safeEdge m \<longleftrightarrow> isEdge m \<and> \<not> isXSquare m \<and> \<not> isCSquare m"

definition evaluateStability :: "'b externals \<Rightarrow> 'b \<Rightarrow> Turn \<Rightarrow> int" where
  "evaluateStability env board perspective =
    (let score = evaluateCorners env board perspective;
         myMoves = getValidMoves env board perspective;
         oppMoves = getValidMoves env board (opponent perspective);
         myEdges = int (length (filter safeEdge myMoves));
         oppEdges = int (length (filter safeEdge oppMoves))
     in score + (myEdges - oppEdges) * 5)"

text \<open>
  \<open>evaluate\<close>. \<open>myMoves.size() - oppMoves.size()\<close> is a difference of \<open>size_t\<close>
  converted to \<open>int\<close>, which is the signed difference of the two lengths.
\<close>

definition evaluate :: "'b externals \<Rightarrow> 'b \<Rightarrow> Turn \<Rightarrow> int" where
  "evaluate env board perspective =
    (let n_empty = emptySquares env board;
         w = getWeights env n_empty;
         sign = (if perspective = BLACK then 1 else - 1);
         material = (getBlackCount env board - getRedCount env board) * sign;
         myMoves = getValidMoves env board perspective;
         oppMoves = getValidMoves env board (opponent perspective);
         mobility = int (length myMoves) - int (length oppMoves);
         positional = evaluatePositional myMoves oppMoves;
         corners = evaluateCorners env board perspective;
         stability = evaluateStability env board perspective
     in int_cast
          (dadd env
            (dadd env
              (dadd env
                (dadd env (dmul env (w_position w) (of_int positional))
                          (dmul env (dmul env (w_mobility w) (of_int mobility)) 5))
                (dmul env (w_corner w) (of_int corners)))
              (dmul env (w_stability w) (of_int stability)))
            (dmul env (w_parity w) (of_int material))))"

section \<open>Move ordering\<close>

text \<open>The comparator of the call of \<open>std::sort\<close>: \<open>a.first > b.first\<close>.\<close>

definition score_before :: "int \<times> Move \<Rightarrow> int \<times> Move \<Rightarrow> bool" where
  "score_before a b \<longleftrightarrow> fst a > fst b"

text \<open>
  The body of the loop of \<open>orderMoves\<close>: the score of one move. The \<open>try\<close> block
  applies the move to a copy of the board; \<open>catch (...)\<close> is the branch \<open>None\<close>.
\<close>

definition moveScore :: "'b externals \<Rightarrow> 'b \<Rightarrow> Turn \<Rightarrow> int \<Rightarrow> Move \<Rightarrow> int" where
  "moveScore env board turn n_empty m =
    (let score =
       (if isCorner m then 100000
        else if isXSquare m \<and> n_empty > 30 then - 50000
        else if isCSquare m \<and> n_empty > 30 then - 20000
        else if isEdge m then 5000
        else POSITION_WEIGHTS (move_x m) (move_y m) * 100)
     in case makeMove env board turn m of
          Some temp \<Rightarrow> score - int (length (getValidMoves env temp (opponent turn))) * 50
        | None \<Rightarrow> score - 100000)"

definition orderMoves :: "'b externals \<Rightarrow> Move list \<Rightarrow> 'b \<Rightarrow> Turn \<Rightarrow> Move list" where
  "orderMoves env moves board turn =
    (if length moves \<le> 1 then moves
     else map snd (std_sort env score_before
            (map (\<lambda>m. (moveScore env board turn (emptySquares env board) m, m)) moves)))"

section \<open>Alpha-beta search\<close>

text \<open>
  The transposition-table lookup of \<open>alphaBeta\<close>: the move list after it.
  \<open>myMoves.remove(entry.bestMove)\<close> erases every element equal to the cached move, and
  \<open>push_front\<close> puts the cached move first, whether it was in the list or not. The
  requested depth is never negative (see \<open>alphaBeta\<close> below) and compares as an \<open>int\<close>.
\<close>

definition ttPromote :: "(64 word \<Rightarrow> TTEntry option) \<Rightarrow> 64 word \<Rightarrow> nat \<Rightarrow> Move list \<Rightarrow> Move list" where
  "ttPromote table h d myMoves =
    (case table h of
       None \<Rightarrow> myMoves
     | Some entry \<Rightarrow>
         if entry_hash entry = h \<and> entry_depth entry \<ge> int d
         then entry_bestMove entry # removeAll (entry_bestMove entry) myMoves
         else myMoves)"

text \<open>
  A pass keeps the depth, and the side that receives the turn has a move, so it does not
  pass back: the recursion ends.
\<close>

definition passes :: "'b externals \<Rightarrow> 'b \<Rightarrow> Turn \<Rightarrow> nat" where
  "passes env board currTurn = (if getValidMoves env board currTurn = [] then 1 else 0)"

text \<open>
  \<open>alphaBeta\<close> and its loop over the ordered moves, which carries \<open>alpha\<close>, \<open>beta\<close>,
  \<open>bestVal\<close> and \<open>bestMove\<close>. The global state goes in and comes out.

  The parameter \<open>depth\<close> of the source is an \<open>int\<close>; \<open>rootSearch\<close> passes
  \<open>depth - 1\<close> with \<open>depth \<ge> 2\<close> and \<open>alphaBeta\<close> passes \<open>depth - 1\<close> below the test
  \<open>depth == 0\<close>, so it is never negative and is a \<open>nat\<close> here. The loop takes the depth
  of the children, \<open>depth - 1\<close>, as its parameter \<open>cd\<close>.

  \<open>myMoves.front()\<close> is \<open>hd\<close>: the list is not empty there when \<open>std::sort\<close> keeps
  the length of its input.
\<close>

function alphaBeta :: "'b externals \<Rightarrow> 'b \<Rightarrow> Turn \<Rightarrow> nat \<Rightarrow> int \<Rightarrow> int \<Rightarrow> Turn \<Rightarrow> SearchState
    \<Rightarrow> int \<times> SearchState"
  and alphaBeta_loop :: "'b externals \<Rightarrow> 'b \<Rightarrow> Turn \<Rightarrow> nat \<Rightarrow> Turn \<Rightarrow> Move list \<Rightarrow> int \<Rightarrow> int
    \<Rightarrow> int \<Rightarrow> Move \<Rightarrow> SearchState \<Rightarrow> (int \<times> Move) \<times> SearchState"
where
  "alphaBeta env board currTurn d alpha beta perspective s =
    (case isTimeUp s of (timeUp, s1) \<Rightarrow>
       if timeUp then (evaluate env board perspective, s1)
       else
        (let myMoves = getValidMoves env board currTurn;
             oppMoves = getValidMoves env board (opponent currTurn)
         in if d = 0 \<or> (myMoves = [] \<and> oppMoves = []) then (evaluate env board perspective, s1)
            else if myMoves = [] then
              alphaBeta env board (opponent currTurn) d alpha beta perspective s1
            else
              (let h = zobrist_hash env board;
                   promoted = ttPromote (transpositionTable s1) h d myMoves;
                   ordered = orderMoves env promoted board currTurn;
                   bestVal = (if currTurn = perspective then - INF_score else INF_score);
                   bestMove = hd ordered
               in case alphaBeta_loop env board currTurn (d - 1) perspective ordered
                         alpha beta bestVal bestMove s1 of
                    ((bestVal', bestMove'), s2) \<Rightarrow>
                      (case isTimeUp s2 of (timeUp', s3) \<Rightarrow>
                         if \<not> timeUp' then
                           (bestVal', s3\<lparr>transpositionTable := (transpositionTable s3)
                              (h \<mapsto> TTEntry h (int d) bestVal' bestMove')\<rparr>)
                         else (bestVal', s3)))))"
| "alphaBeta_loop env board currTurn cd perspective [] alpha beta bestVal bestMove s =
    ((bestVal, bestMove), s)"
| "alphaBeta_loop env board currTurn cd perspective (m # ms) alpha beta bestVal bestMove s =
    (case isTimeUp s of (timeUp, s1) \<Rightarrow>
       if timeUp then ((bestVal, bestMove), s1)
       else
        (case makeMove env board currTurn m of
           None \<Rightarrow> alphaBeta_loop env board currTurn cd perspective ms alpha beta bestVal bestMove s1
         | Some newBoard \<Rightarrow>
            (case alphaBeta env newBoard (opponent currTurn) cd alpha beta perspective s1 of
               (val, s2) \<Rightarrow>
                 (let maximizing = (currTurn = perspective);
                      bestVal' = (if maximizing then (if val > bestVal then val else bestVal)
                                  else (if val < bestVal then val else bestVal));
                      bestMove' = (if maximizing then (if val > bestVal then m else bestMove)
                                   else (if val < bestVal then m else bestMove));
                      alpha' = (if maximizing then max alpha val else alpha);
                      beta' = (if maximizing then beta else min beta val)
                  in if beta' \<le> alpha' then ((bestVal', bestMove'), s2)
                     else alphaBeta_loop env board currTurn cd perspective ms alpha' beta'
                            bestVal' bestMove' s2))))"
  by pat_completeness auto
termination
  apply (relation "measures
     [\<lambda>a. case a of Inl (env, board, currTurn, d, _) \<Rightarrow> 3 * d + passes env board currTurn
                   | Inr (env, board, currTurn, cd, _) \<Rightarrow> 3 * cd + 2,
      \<lambda>a. case a of Inl _ \<Rightarrow> 0 | Inr (_, _, _, _, _, ms, _) \<Rightarrow> length ms]")
  apply (auto simp: passes_def split: if_splits)
  done

text \<open>
  The part of \<open>alphaBeta\<close> that follows the lookup, for a node that has moves: the
  ordering of the move list \<open>myMoves\<close> as the lookup left it, the loop over the ordered
  moves, and the store. It reads no entry of the table for this node.
\<close>

definition searchMoves :: "'b externals \<Rightarrow> 'b \<Rightarrow> Turn \<Rightarrow> nat \<Rightarrow> int \<Rightarrow> int \<Rightarrow> Turn \<Rightarrow> Move list
    \<Rightarrow> SearchState \<Rightarrow> int \<times> SearchState" where
  "searchMoves env board currTurn d alpha beta perspective myMoves s1 =
    (let h = zobrist_hash env board;
         ordered = orderMoves env myMoves board currTurn;
         bestVal = (if currTurn = perspective then - INF_score else INF_score);
         bestMove = hd ordered
     in case alphaBeta_loop env board currTurn (d - 1) perspective ordered
               alpha beta bestVal bestMove s1 of
          ((bestVal', bestMove'), s2) \<Rightarrow>
            (case isTimeUp s2 of (timeUp', s3) \<Rightarrow>
               if \<not> timeUp' then
                 (bestVal', s3\<lparr>transpositionTable := (transpositionTable s3)
                    (h \<mapsto> TTEntry h (int d) bestVal' bestMove')\<rparr>)
               else (bestVal', s3)))"

section \<open>Root search with iterative deepening\<close>

text \<open>The inner loop of \<open>rootSearch\<close> over the root moves, at one depth.\<close>

fun rootSearch_moves :: "'b externals \<Rightarrow> 'b \<Rightarrow> Turn \<Rightarrow> int \<Rightarrow> Move list \<Rightarrow> Move \<Rightarrow> int
    \<Rightarrow> SearchState \<Rightarrow> (Move \<times> int) \<times> SearchState" where
  "rootSearch_moves env board turn depth [] iterBest iterScore s = ((iterBest, iterScore), s)"
| "rootSearch_moves env board turn depth (m # ms) iterBest iterScore s =
    (case isTimeUp s of (timeUp, s1) \<Rightarrow>
       if timeUp then ((iterBest, iterScore), s1)
       else
        (case makeMove env board turn m of
           None \<Rightarrow> rootSearch_moves env board turn depth ms iterBest iterScore s1
         | Some newBoard \<Rightarrow>
            (case alphaBeta env newBoard (opponent turn) (nat (depth - 1))
                    (- INF_score) INF_score turn s1 of
               (score, s2) \<Rightarrow>
                 if score > iterScore then rootSearch_moves env board turn depth ms m score s2
                 else rootSearch_moves env board turn depth ms iterBest iterScore s2)))"

text \<open>The outer loop \<open>for (int depth = 2; depth <= maxDepth; depth += 2)\<close>.\<close>

function rootSearch_loop :: "'b externals \<Rightarrow> 'b \<Rightarrow> Turn \<Rightarrow> int \<Rightarrow> int \<Rightarrow> Move list \<Rightarrow> Move
    \<Rightarrow> SearchState \<Rightarrow> Move \<times> SearchState" where
  "rootSearch_loop env board turn maxDepth depth moves bestMove s =
    (if depth \<le> maxDepth then
       (case isTimeUp s of (timeUp, s1) \<Rightarrow>
          if timeUp then (bestMove, s1)
          else
           (case rootSearch_moves env board turn depth moves bestMove (- INF_score) s1 of
              ((iterBest, iterScore), s2) \<Rightarrow>
                (case isTimeUp s2 of (timeUp', s3) \<Rightarrow>
                   if \<not> timeUp' then
                     rootSearch_loop env board turn maxDepth (depth + 2)
                       (iterBest # removeAll iterBest moves) iterBest s3
                   else
                     rootSearch_loop env board turn maxDepth (depth + 2) moves bestMove s3)))
     else (bestMove, s))"
  by pat_completeness auto
termination
  by (relation "measure (\<lambda>(env, board, turn, maxDepth, depth, _). nat (maxDepth + 1 - depth))") auto

definition rootSearch :: "'b externals \<Rightarrow> 'b \<Rightarrow> Turn \<Rightarrow> int \<Rightarrow> SearchState \<Rightarrow> Move \<times> SearchState" where
  "rootSearch env board turn maxDepth s =
    (let moves = getValidMoves env board turn
     in if moves = [] then (Move 0 0, s)
        else if length moves = 1 then (hd moves, s)
        else (let ordered = orderMoves env moves board turn;
                  bestMove = hd ordered
              in rootSearch_loop env board turn maxDepth 2 ordered bestMove s))"

section \<open>Main play function\<close>

text \<open>
  The search depth \<open>playMove\<close> computes from the number of empty squares, with the
  clamp \<open>min(maxDepth, MAX_DEPTH)\<close>.
\<close>

definition adaptiveDepth :: "int \<Rightarrow> int" where
  "adaptiveDepth n_empty =
    min (if n_empty \<le> 12 then n_empty
         else if n_empty \<le> 20 then 10
         else if n_empty \<le> 40 then 8
         else 6) MAX_DEPTH"

text \<open>
  \<open>playMove\<close> resets \<open>timeoutFlag\<close> and the table and restarts the clock: the field
  \<open>clock\<close> of the state it is given describes the readings of the clock it starts.
\<close>

definition playMove :: "'b externals \<Rightarrow> 'b \<Rightarrow> Turn \<Rightarrow> SearchState \<Rightarrow> Move \<times> SearchState" where
  "playMove env board turn s =
    (let s0 = s\<lparr>timeoutFlag := False, transpositionTable := Map.empty\<rparr>;
         moves = getValidMoves env board turn
     in if moves = [] then (Move 0 0, s0)
        else if length moves = 1 then (hd moves, s0)
        else (let n_empty = emptySquares env board;
                  maxDepth = adaptiveDepth n_empty
              in case rootSearch env board turn maxDepth s0 of
                   (bestMove, s1) \<Rightarrow>
                     if \<not> validateMove env board turn bestMove then (hd moves, s1)
                     else (bestMove, s1)))"

section \<open>Unpruned minimax\<close>

text \<open>
  The reference that the specification compares \<open>alphaBeta\<close> with: the same tree (same
  leaves, same passes, the moves that apply) searched to the same depth with neither
  window nor clock nor table, best value starting at minus or plus infinity.
\<close>

definition successors :: "'b externals \<Rightarrow> 'b \<Rightarrow> Turn \<Rightarrow> Move list \<Rightarrow> 'b list" where
  "successors env board turn ms = List.map_filter (makeMove env board turn) ms"

function minimax :: "'b externals \<Rightarrow> 'b \<Rightarrow> Turn \<Rightarrow> nat \<Rightarrow> Turn \<Rightarrow> int" where
  "minimax env board currTurn d perspective =
    (let myMoves = getValidMoves env board currTurn;
         oppMoves = getValidMoves env board (opponent currTurn)
     in if d = 0 \<or> (myMoves = [] \<and> oppMoves = []) then evaluate env board perspective
        else if myMoves = [] then minimax env board (opponent currTurn) d perspective
        else (let vals = map (\<lambda>child. minimax env child (opponent currTurn) (d - 1) perspective)
                           (successors env board currTurn myMoves)
              in if currTurn = perspective then fold max vals (- INF_score)
                 else fold min vals INF_score))"
  by pat_completeness auto
termination
  by (relation "measure (\<lambda>(env, board, currTurn, d, _). 2 * d + passes env board currTurn)")
     (auto simp: passes_def split: if_splits)

section \<open>What the bot relies on\<close>

text \<open>
  Rounding to the nearest \<open>double\<close> is symmetric about zero (IEEE 754).
\<close>

definition fround_odd :: "'b externals \<Rightarrow> bool" where
  "fround_odd env \<longleftrightarrow> (\<forall>q. fround env (- q) = - fround env q)"

text \<open>
  What the C++ standard promises of \<open>std::sort\<close> with the comparator of \<open>orderMoves\<close>:
  the result is a permutation of the input, and no element is ordered before one that
  stands earlier. It promises nothing on the order of elements that compare equal.
\<close>

definition sort_contract :: "'b externals \<Rightarrow> bool" where
  "sort_contract env \<longleftrightarrow>
    (\<forall>xs. mset (std_sort env score_before xs) = mset xs \<and>
          sorted_wrt (\<lambda>a b. \<not> score_before b a) (std_sort env score_before xs))"

text \<open>
  The moves of a list that have the composite score \<open>k\<close> at a position, in the order
  they have in the list.
\<close>

definition tied :: "'b externals \<Rightarrow> 'b \<Rightarrow> Turn \<Rightarrow> int \<Rightarrow> Move list \<Rightarrow> Move list" where
  "tied env board turn k ms =
     filter (\<lambda>m. moveScore env board turn (emptySquares env board) m = k) ms"

text \<open>The clock never reaches the limit and the flag is not set.\<close>

definition never_expires :: "SearchState \<Rightarrow> bool" where
  "never_expires s \<longleftrightarrow> \<not> timeoutFlag s \<and> clock s = None"

text \<open>The next call of \<open>isTimeUp\<close> answers true.\<close>

definition expired :: "SearchState \<Rightarrow> bool" where
  "expired s \<longleftrightarrow> timeoutFlag s \<or> clock s = Some 0"

text \<open>\<open>makeMove\<close> applies no move that \<open>getValidMoves\<close> does not enumerate.\<close>

definition makeMove_sound :: "'b externals \<Rightarrow> bool" where
  "makeMove_sound env \<longleftrightarrow>
    (\<forall>board turn m. makeMove env board turn m \<noteq> None \<longrightarrow> m \<in> set (getValidMoves env board turn))"

text \<open>A board has 64 squares: no side ever has more than 64 moves.\<close>

definition moves_bounded :: "'b externals \<Rightarrow> bool" where
  "moves_bounded env \<longleftrightarrow> (\<forall>board turn. length (getValidMoves env board turn) \<le> 64)"

text \<open>
  Where a value returned by the search can come from: the static evaluation of some
  position, or the initial best value of a node.
\<close>

definition value_origin :: "'b externals \<Rightarrow> Turn \<Rightarrow> int \<Rightarrow> bool" where
  "value_origin env perspective v \<longleftrightarrow>
     v = INF_score \<or> v = - INF_score \<or> (\<exists>b. v = evaluate env b perspective)"

text \<open>
  The values that the calls for the children return to the loop of a node, in the order
  of the calls, up to the point where the loop stops: the end of the list, a cutoff, or
  a check that finds the budget expired. The value of a call during which the budget
  expired is among them.
\<close>

fun explored_values :: "'b externals \<Rightarrow> 'b \<Rightarrow> Turn \<Rightarrow> nat \<Rightarrow> Turn \<Rightarrow> Move list \<Rightarrow> int \<Rightarrow> int
    \<Rightarrow> SearchState \<Rightarrow> int list" where
  "explored_values env board currTurn cd perspective [] alpha beta s = []"
| "explored_values env board currTurn cd perspective (m # ms) alpha beta s =
    (case isTimeUp s of (timeUp, s1) \<Rightarrow>
       if timeUp then []
       else
        (case makeMove env board currTurn m of
           None \<Rightarrow> explored_values env board currTurn cd perspective ms alpha beta s1
         | Some newBoard \<Rightarrow>
            (case alphaBeta env newBoard (opponent currTurn) cd alpha beta perspective s1 of
               (val, s2) \<Rightarrow>
                 (let alpha' = (if currTurn = perspective then max alpha val else alpha);
                      beta' = (if currTurn = perspective then beta else min beta val)
                  in val # (if beta' \<le> alpha' then []
                            else explored_values env board currTurn cd perspective ms alpha' beta' s2)))))"

text \<open>
  The best of a start value and a list of values: the largest where the side to move is
  the side the search is for, the smallest where it is the opponent.
\<close>

definition running_best :: "bool \<Rightarrow> int list \<Rightarrow> int \<Rightarrow> int" where
  "running_best maximizing vals bestVal =
     fold (\<lambda>v b. if maximizing then max b v else min b v) vals bestVal"

text \<open>
  What a search with the window \<open>(alpha, beta)\<close> says of the exact value \<open>v\<close> when it
  returns \<open>r\<close>: at or below \<open>alpha\<close> it is an upper bound, at or above \<open>beta\<close> a lower
  bound, and strictly inside the window it is the value.
\<close>

definition window_exact :: "int \<Rightarrow> int \<Rightarrow> int \<Rightarrow> int \<Rightarrow> bool" where
  "window_exact alpha beta r v \<longleftrightarrow>
     (r \<le> alpha \<longrightarrow> v \<le> r) \<and> (beta \<le> r \<longrightarrow> r \<le> v) \<and> (alpha < r \<and> r < beta \<longrightarrow> r = v)"

text \<open>The minimax values of the children that the moves of a list lead to.\<close>

definition child_values :: "'b externals \<Rightarrow> 'b \<Rightarrow> Turn \<Rightarrow> nat \<Rightarrow> Turn \<Rightarrow> Move list \<Rightarrow> int list" where
  "child_values env board currTurn cd perspective ms =
     map (\<lambda>child. minimax env child (opponent currTurn) cd perspective)
       (successors env board currTurn ms)"

text \<open>
  What a lookup under the key \<open>h\<close> can see of a table: the depth and the best move of
  an entry whose stored hash is \<open>h\<close>. Two states are the same to the search when
  flag and clock agree and the tables show the same under every key; the stored scores
  are not part of it.
\<close>

definition entry_view :: "64 word \<Rightarrow> TTEntry option \<Rightarrow> (int \<times> Move) option" where
  "entry_view h eo =
    (case eo of
       None \<Rightarrow> None
     | Some e \<Rightarrow> if entry_hash e = h then Some (entry_depth e, entry_bestMove e) else None)"

definition same_view :: "SearchState \<Rightarrow> SearchState \<Rightarrow> bool" where
  "same_view s s' \<longleftrightarrow>
     timeoutFlag s = timeoutFlag s' \<and> clock s = clock s' \<and>
     (\<forall>h. entry_view h (transpositionTable s h) = entry_view h (transpositionTable s' h))"

section \<open>\<open>std::sort\<close> in the GNU C++ library\<close>

text \<open>
  The bot is built with GCC, whose library implements \<open>std::sort\<close> as an introsort
  (\<open>bits/stl_algo.h\<close>, \<open>bits/stl_heap.h\<close>): quicksort with a median-of-three pivot
  on ranges of more than \<open>_S_threshold = 16\<close> elements, heapsort once the depth limit
  \<open>2 * lg n\<close> is used up, and one final insertion sort over the whole range. The
  functions below follow the library's functions of the same names (without the leading
  underscores). The vector is a list, an iterator is an index into it, and a function
  that writes to the vector returns the new list. The end of a range is \<open>last_i\<close> and the
  cut of a partition is \<open>cut_i\<close>, since \<open>last\<close> and \<open>cut\<close> are names of HOL.

  Where a loop of the library has no bound check (it is called unguarded), it stops
  inside the vector when the comparator is a strict weak ordering, which
  \<open>a.first > b.first\<close> is. Here such a loop also stops at the end of the vector.
\<close>

definition S_threshold :: nat where
  "S_threshold = 16"

fun std_lg :: "nat \<Rightarrow> nat" where
  "std_lg n = (if n < 2 then 0 else Suc (std_lg (n div 2)))"

definition iter_swap :: "'a list \<Rightarrow> nat \<Rightarrow> nat \<Rightarrow> 'a list" where
  "iter_swap v i j = v[i := v ! j, j := v ! i]"

text \<open>
  \<open>__unguarded_linear_insert\<close>: the element at \<open>last_i\<close> moves down past every element
  that it is ordered before.
\<close>

fun linear_insert_loop :: "('a \<Rightarrow> 'a \<Rightarrow> bool) \<Rightarrow> 'a \<Rightarrow> 'a list \<Rightarrow> nat \<Rightarrow> 'a list" where
  "linear_insert_loop cmp val v 0 = v[0 := val]"
| "linear_insert_loop cmp val v (Suc next) =
     (if cmp val (v ! next) then linear_insert_loop cmp val (v[Suc next := v ! next]) next
      else v[Suc next := val])"

definition std_unguarded_linear_insert :: "('a \<Rightarrow> 'a \<Rightarrow> bool) \<Rightarrow> 'a list \<Rightarrow> nat \<Rightarrow> 'a list" where
  "std_unguarded_linear_insert cmp v last_i = linear_insert_loop cmp (v ! last_i) v last_i"

text \<open>
  \<open>__insertion_sort\<close>. An element that is ordered before the first one goes to the
  front, the elements \<open>first .. i - 1\<close> moving up by one (\<open>std::move_backward\<close>); any
  other element is inserted by \<open>__unguarded_linear_insert\<close>.
\<close>

definition move_backward_one :: "'a list \<Rightarrow> nat \<Rightarrow> nat \<Rightarrow> 'a list" where
  "move_backward_one v first i =
     take first v @ [v ! i] @ take (i - first) (drop first v) @ drop (Suc i) v"

definition std_insertion_sort :: "('a \<Rightarrow> 'a \<Rightarrow> bool) \<Rightarrow> 'a list \<Rightarrow> nat \<Rightarrow> nat \<Rightarrow> 'a list" where
  "std_insertion_sort cmp v first last_i =
     fold (\<lambda>i v. if cmp (v ! i) (v ! first) then move_backward_one v first i
                  else std_unguarded_linear_insert cmp v i)
       [Suc first..<last_i] v"

definition std_unguarded_insertion_sort :: "('a \<Rightarrow> 'a \<Rightarrow> bool) \<Rightarrow> 'a list \<Rightarrow> nat \<Rightarrow> nat \<Rightarrow> 'a list" where
  "std_unguarded_insertion_sort cmp v first last_i =
     fold (\<lambda>i v. std_unguarded_linear_insert cmp v i) [first..<last_i] v"

definition std_final_insertion_sort :: "('a \<Rightarrow> 'a \<Rightarrow> bool) \<Rightarrow> 'a list \<Rightarrow> nat \<Rightarrow> nat \<Rightarrow> 'a list" where
  "std_final_insertion_sort cmp v first last_i =
     (if last_i - first > S_threshold
      then std_unguarded_insertion_sort cmp
             (std_insertion_sort cmp v first (first + S_threshold)) (first + S_threshold) last_i
      else std_insertion_sort cmp v first last_i)"

text \<open>
  \<open>__move_median_to_first\<close> and \<open>__unguarded_partition\<close>; \<open>scan_up\<close> and
  \<open>scan_down\<close> are the first and the second inner loop of the partition, which returns
  the cut and the vector.
\<close>

definition std_move_median_to_first :: "('a \<Rightarrow> 'a \<Rightarrow> bool) \<Rightarrow> 'a list \<Rightarrow> nat \<Rightarrow> nat \<Rightarrow> nat \<Rightarrow> nat \<Rightarrow> 'a list" where
  "std_move_median_to_first cmp v result a b c =
     (if cmp (v ! a) (v ! b) then
        (if cmp (v ! b) (v ! c) then iter_swap v result b
         else if cmp (v ! a) (v ! c) then iter_swap v result c
         else iter_swap v result a)
      else if cmp (v ! a) (v ! c) then iter_swap v result a
      else if cmp (v ! b) (v ! c) then iter_swap v result c
      else iter_swap v result b)"

function scan_up :: "('a \<Rightarrow> 'a \<Rightarrow> bool) \<Rightarrow> 'a list \<Rightarrow> nat \<Rightarrow> nat \<Rightarrow> nat" where
  "scan_up cmp v pivot first =
     (if first < length v \<and> cmp (v ! first) (v ! pivot) then scan_up cmp v pivot (Suc first)
      else first)"
  by pat_completeness auto
termination
  by (relation "measure (\<lambda>(cmp, v, pivot, first). length v - first)") auto

fun scan_down :: "('a \<Rightarrow> 'a \<Rightarrow> bool) \<Rightarrow> 'a list \<Rightarrow> nat \<Rightarrow> nat \<Rightarrow> nat" where
  "scan_down cmp v pivot 0 = 0"
| "scan_down cmp v pivot (Suc last_i) =
     (if cmp (v ! pivot) (v ! Suc last_i) then scan_down cmp v pivot last_i else Suc last_i)"

function std_unguarded_partition :: "('a \<Rightarrow> 'a \<Rightarrow> bool) \<Rightarrow> 'a list \<Rightarrow> nat \<Rightarrow> nat \<Rightarrow> nat \<Rightarrow> nat \<times> 'a list" where
  "std_unguarded_partition cmp v first last_i pivot =
     (let first' = scan_up cmp v pivot first;
          last_j = scan_down cmp v pivot (last_i - 1)
      in if \<not> first' < last_j then (first', v)
         else std_unguarded_partition cmp (iter_swap v first' last_j) (Suc first') last_j pivot)"
  by pat_completeness auto
termination
proof (relation "measure (\<lambda>(cmp, v, first, last_i, pivot). last_i - first)")
  show "wf (measure (\<lambda>(cmp, v, first, last_i, pivot). last_i - first))"
    by simp
next
  fix cmp :: "'a \<Rightarrow> 'a \<Rightarrow> bool" and v :: "'a list" and first last_i pivot first' last_j
  assume f: "first' = scan_up cmp v pivot first"
    and l: "last_j = scan_down cmp v pivot (last_i - 1)"
    and lt: "\<not> \<not> first' < last_j"
  have up: "i \<le> scan_up cmp v pivot i" for i
  proof (induction cmp v pivot i rule: scan_up.induct)
    case (1 cmp v pivot first)
    show ?case
    proof (cases "first < length v \<and> cmp (v ! first) (v ! pivot)")
      case True
      with 1 have "Suc first \<le> scan_up cmp v pivot (Suc first)" by simp
      with True show ?thesis by (subst scan_up.simps) simp
    next
      case False
      then show ?thesis by (subst scan_up.simps) simp
    qed
  qed
  have down: "scan_down cmp v pivot i \<le> i" for i
    by (induction i) auto
  from f up[of first] have "first \<le> first'" by simp
  moreover from l down[of "last_i - 1"] have "last_j \<le> last_i - 1" by simp
  ultimately show "((cmp, iter_swap v first' last_j, Suc first', last_j, pivot), (cmp, v, first, last_i, pivot))
        \<in> measure (\<lambda>(cmp, v, first, last_i, pivot). last_i - first)"
    using lt by simp
qed

definition std_unguarded_partition_pivot :: "('a \<Rightarrow> 'a \<Rightarrow> bool) \<Rightarrow> 'a list \<Rightarrow> nat \<Rightarrow> nat \<Rightarrow> nat \<times> 'a list" where
  "std_unguarded_partition_pivot cmp v first last_i =
     (let mid = first + (last_i - first) div 2
      in std_unguarded_partition cmp
           (std_move_median_to_first cmp v first (first + 1) mid (last_i - 1)) (first + 1) last_i first)"

text \<open>
  The heap functions of \<open>bits/stl_heap.h\<close> that \<open>__partial_sort\<close> uses. The indices
  \<open>holeIndex\<close>, \<open>topIndex\<close>, \<open>secondChild\<close> and the length \<open>len\<close> count from
  \<open>first\<close>; the divisions are on values that are not negative.
\<close>

function std_push_heap :: "('a \<Rightarrow> 'a \<Rightarrow> bool) \<Rightarrow> 'a list \<Rightarrow> nat \<Rightarrow> nat \<Rightarrow> nat \<Rightarrow> 'a \<Rightarrow> 'a list" where
  "std_push_heap cmp v first holeIndex topIndex val =
     (let parent = (holeIndex - 1) div 2
      in if holeIndex > topIndex \<and> cmp (v ! (first + parent)) val
         then std_push_heap cmp (v[first + holeIndex := v ! (first + parent)]) first parent topIndex val
         else v[first + holeIndex := val])"
  by pat_completeness auto
termination
  by (relation "measure (\<lambda>(cmp, v, first, holeIndex, topIndex, val). holeIndex)") auto

function adjust_heap_loop :: "('a \<Rightarrow> 'a \<Rightarrow> bool) \<Rightarrow> 'a list \<Rightarrow> nat \<Rightarrow> nat \<Rightarrow> nat \<Rightarrow> nat
    \<Rightarrow> 'a list \<times> nat \<times> nat" where
  "adjust_heap_loop cmp v first len holeIndex secondChild =
     (if secondChild < (len - 1) div 2 then
        (let sc = 2 * (secondChild + 1);
             sc' = (if cmp (v ! (first + sc)) (v ! (first + (sc - 1))) then sc - 1 else sc)
         in adjust_heap_loop cmp (v[first + holeIndex := v ! (first + sc')]) first len sc' sc')
      else (v, holeIndex, secondChild))"
  by pat_completeness auto
termination
  by (relation "measure (\<lambda>(cmp, v, first, len, holeIndex, secondChild). len - secondChild)") auto

definition std_adjust_heap :: "('a \<Rightarrow> 'a \<Rightarrow> bool) \<Rightarrow> 'a list \<Rightarrow> nat \<Rightarrow> nat \<Rightarrow> nat \<Rightarrow> 'a \<Rightarrow> 'a list" where
  "std_adjust_heap cmp v first holeIndex len val =
     (case adjust_heap_loop cmp v first len holeIndex holeIndex of
        (v1, hole1, sc1) \<Rightarrow>
          if len mod 2 = 0 \<and> sc1 = (len - 2) div 2
          then (let sc2 = 2 * (sc1 + 1)
                in std_push_heap cmp (v1[first + hole1 := v1 ! (first + (sc2 - 1))]) first (sc2 - 1)
                     holeIndex val)
          else std_push_heap cmp v1 first hole1 holeIndex val)"

fun make_heap_loop :: "('a \<Rightarrow> 'a \<Rightarrow> bool) \<Rightarrow> nat \<Rightarrow> nat \<Rightarrow> nat \<Rightarrow> 'a list \<Rightarrow> 'a list" where
  "make_heap_loop cmp first len 0 v = std_adjust_heap cmp v first 0 len (v ! first)"
| "make_heap_loop cmp first len (Suc parent) v =
     make_heap_loop cmp first len parent
       (std_adjust_heap cmp v first (Suc parent) len (v ! (first + Suc parent)))"

definition std_make_heap :: "('a \<Rightarrow> 'a \<Rightarrow> bool) \<Rightarrow> 'a list \<Rightarrow> nat \<Rightarrow> nat \<Rightarrow> 'a list" where
  "std_make_heap cmp v first last_i =
     (if last_i - first < 2 then v
      else make_heap_loop cmp first (last_i - first) ((last_i - first - 2) div 2) v)"

definition std_pop_heap :: "('a \<Rightarrow> 'a \<Rightarrow> bool) \<Rightarrow> 'a list \<Rightarrow> nat \<Rightarrow> nat \<Rightarrow> nat \<Rightarrow> 'a list" where
  "std_pop_heap cmp v first last_i result =
     std_adjust_heap cmp (v[result := v ! first]) first 0 (last_i - first) (v ! result)"

definition std_heap_select :: "('a \<Rightarrow> 'a \<Rightarrow> bool) \<Rightarrow> 'a list \<Rightarrow> nat \<Rightarrow> nat \<Rightarrow> nat \<Rightarrow> 'a list" where
  "std_heap_select cmp v first middle last_i =
     fold (\<lambda>i v. if cmp (v ! i) (v ! first) then std_pop_heap cmp v first middle i else v)
       [middle..<last_i] (std_make_heap cmp v first middle)"

function std_sort_heap :: "('a \<Rightarrow> 'a \<Rightarrow> bool) \<Rightarrow> 'a list \<Rightarrow> nat \<Rightarrow> nat \<Rightarrow> 'a list" where
  "std_sort_heap cmp v first last_i =
     (if last_i - first > 1
      then std_sort_heap cmp (std_pop_heap cmp v first (last_i - 1) (last_i - 1)) first (last_i - 1)
      else v)"
  by pat_completeness auto
termination
  by (relation "measure (\<lambda>(cmp, v, first, last_i). last_i - first)") auto

definition std_partial_sort :: "('a \<Rightarrow> 'a \<Rightarrow> bool) \<Rightarrow> 'a list \<Rightarrow> nat \<Rightarrow> nat \<Rightarrow> nat \<Rightarrow> 'a list" where
  "std_partial_sort cmp v first middle last_i =
     std_sort_heap cmp (std_heap_select cmp v first middle last_i) first middle"

text \<open>
  \<open>__introsort_loop\<close>, by recursion on the depth limit, which every round of its
  \<open>while\<close> loop decrements before it partitions: the recursive call sorts the upper
  part, the next round of the loop takes the lower part.
\<close>

fun std_introsort_loop :: "('a \<Rightarrow> 'a \<Rightarrow> bool) \<Rightarrow> nat \<Rightarrow> nat \<Rightarrow> nat \<Rightarrow> 'a list \<Rightarrow> 'a list" where
  "std_introsort_loop cmp 0 first last_i v =
     (if last_i - first > S_threshold then std_partial_sort cmp v first last_i last_i else v)"
| "std_introsort_loop cmp (Suc depth_limit) first last_i v =
     (if last_i - first > S_threshold then
        (case std_unguarded_partition_pivot cmp v first last_i of
           (cut_i, v1) \<Rightarrow>
             std_introsort_loop cmp depth_limit first cut_i
               (std_introsort_loop cmp depth_limit cut_i last_i v1))
      else v)"

text \<open>\<open>std::__sort\<close>, which \<open>std::sort\<close> calls.\<close>

definition libstdcxx_sort :: "('a \<Rightarrow> 'a \<Rightarrow> bool) \<Rightarrow> 'a list \<Rightarrow> 'a list" where
  "libstdcxx_sort cmp v =
     (if v = [] then v
      else std_final_insertion_sort cmp
             (std_introsort_loop cmp (std_lg (length v) * 2) 0 (length v) v) 0 (length v))"

section \<open>A synthetic game tree\<close>

text \<open>
  A small game for concrete runs: eight positions, the moves of each side at each, and
  the piece counts. \<open>T0\<close> has four empty squares and three moves for \<open>BLACK\<close>; at
  \<open>T1\<close> \<open>RED\<close> has two moves of equal score; at \<open>T3\<close> \<open>RED\<close> has to pass.
\<close>

datatype toy_board = T0 | T1 | T2 | T3 | T4 | T5 | T6 | T7

fun toy_moves :: "toy_board \<Rightarrow> Turn \<Rightarrow> (Move \<times> toy_board) list" where
  "toy_moves T0 BLACK = [(Move 1 1, T3), (Move 2 3, T2), (Move 0 0, T1)]"
| "toy_moves T1 RED = [(Move 2 3, T4), (Move 3 2, T5)]"
| "toy_moves T2 RED = [(Move 1 1, T6)]"
| "toy_moves T3 BLACK = [(Move 0 0, T7)]"
| "toy_moves _ _ = []"

fun toy_black :: "toy_board \<Rightarrow> int" where
  "toy_black T0 = 30" | "toy_black T1 = 33" | "toy_black T2 = 32" | "toy_black T3 = 34"
| "toy_black T4 = 31" | "toy_black T5 = 32" | "toy_black T6 = 30" | "toy_black T7 = 36"

fun toy_red :: "toy_board \<Rightarrow> int" where
  "toy_red T0 = 30" | "toy_red T1 = 28" | "toy_red T2 = 29" | "toy_red T3 = 27"
| "toy_red T4 = 31" | "toy_red T5 = 30" | "toy_red T6 = 32" | "toy_red T7 = 26"

text \<open>An insertion sort, which keeps the order of elements that compare equal.\<close>

fun sort_insert :: "('a \<Rightarrow> 'a \<Rightarrow> bool) \<Rightarrow> 'a \<Rightarrow> 'a list \<Rightarrow> 'a list" where
  "sort_insert cmp a [] = [a]"
| "sort_insert cmp a (b # bs) = (if cmp a b then a # b # bs else b # sort_insert cmp a bs)"

definition insertion_sort :: "('a \<Rightarrow> 'a \<Rightarrow> bool) \<Rightarrow> 'a list \<Rightarrow> 'a list" where
  "insertion_sort cmp xs = fold (sort_insert cmp) xs []"

definition toy :: "toy_board externals" where
  "toy = \<lparr>getValidMoves = (\<lambda>b t. map fst (toy_moves b t)),
          validateMove = (\<lambda>b t m. m \<in> set (map fst (toy_moves b t))),
          makeMove = (\<lambda>b t m. map_of (toy_moves b t) m),
          getBlackCount = toy_black,
          getRedCount = toy_red,
          zobristTable = (\<lambda>i j. word_of_nat (3 * i + j + 1)),
          std_sort = insertion_sort,
          fround = (\<lambda>q. q)\<rparr>"

text \<open>
  A game in which two lines of play meet in positions that the hash does not tell
  apart. \<open>Q0\<close> has the four empty squares \<open>(0,0)\<close>, \<open>(1,1)\<close>, \<open>(2,3)\<close>, \<open>(3,2)\<close> and
  30 discs of each colour. \<open>BLACK\<close> plays \<open>(2,3)\<close> and \<open>RED\<close> answers \<open>(3,2)\<close>: that
  is \<open>Q3\<close>, with \<open>BLACK\<close> to move. Or \<open>BLACK\<close> plays \<open>(3,2)\<close>, \<open>RED\<close> has to pass and
  \<open>BLACK\<close> plays \<open>(2,3)\<close>: that is \<open>Q4\<close>, with \<open>RED\<close> to move. Both have 34 black and
  28 red discs, and in both \<open>BLACK\<close> can play \<open>(1,1)\<close> only and \<open>RED\<close> \<open>(0,0)\<close> only.
\<close>

datatype twin_board = Q0 | Q1 | Q2 | Q3 | Q4 | Q5 | Q6 | Q7 | Q8

fun twin_moves :: "twin_board \<Rightarrow> Turn \<Rightarrow> (Move \<times> twin_board) list" where
  "twin_moves Q0 BLACK = [(Move 2 3, Q1), (Move 3 2, Q2)]"
| "twin_moves Q1 RED = [(Move 3 2, Q3)]"
| "twin_moves Q2 BLACK = [(Move 2 3, Q4)]"
| "twin_moves Q3 BLACK = [(Move 1 1, Q5)]"
| "twin_moves Q3 RED = [(Move 0 0, Q7)]"
| "twin_moves Q4 RED = [(Move 0 0, Q6)]"
| "twin_moves Q4 BLACK = [(Move 1 1, Q8)]"
| "twin_moves _ _ = []"

fun twin_black :: "twin_board \<Rightarrow> int" where
  "twin_black Q0 = 30" | "twin_black Q1 = 35" | "twin_black Q2 = 32" | "twin_black Q3 = 34"
| "twin_black Q4 = 34" | "twin_black Q5 = 36" | "twin_black Q6 = 33" | "twin_black Q7 = 33"
| "twin_black Q8 = 36"

fun twin_red :: "twin_board \<Rightarrow> int" where
  "twin_red Q0 = 30" | "twin_red Q1 = 26" | "twin_red Q2 = 29" | "twin_red Q3 = 28"
| "twin_red Q4 = 28" | "twin_red Q5 = 27" | "twin_red Q6 = 30" | "twin_red Q7 = 30"
| "twin_red Q8 = 27"

definition twin :: "twin_board externals" where
  "twin = \<lparr>getValidMoves = (\<lambda>b t. map fst (twin_moves b t)),
           validateMove = (\<lambda>b t m. m \<in> set (map fst (twin_moves b t))),
           makeMove = (\<lambda>b t m. map_of (twin_moves b t) m),
           getBlackCount = twin_black,
           getRedCount = twin_red,
           zobristTable = (\<lambda>i j. word_of_nat (3 * i + j + 1)),
           std_sort = insertion_sort,
           fround = (\<lambda>q. q)\<rparr>"

text \<open>
  A position with seventeen moves for \<open>BLACK\<close>, enumerated row by row: four on edges
  and thirteen next to them, with 24 squares empty. \<open>Wide_after m\<close> is the position
  after the move \<open>m\<close>, where \<open>RED\<close> has no move. The sort is the one of the library.
\<close>

datatype wide_board = Wide | Wide_after Move

definition wide_moves :: "Move list" where
  "wide_moves =
     [Move 0 2, Move 0 3, Move 0 4, Move 1 2, Move 1 3, Move 1 4, Move 1 5, Move 2 0, Move 2 1,
      Move 2 6, Move 3 1, Move 3 6, Move 4 1, Move 4 6, Move 5 1, Move 5 6, Move 6 3]"

definition wide :: "wide_board externals" where
  "wide = \<lparr>getValidMoves = (\<lambda>b t. if b = Wide \<and> t = BLACK then wide_moves else []),
           validateMove = (\<lambda>b t m. b = Wide \<and> t = BLACK \<and> m \<in> set wide_moves),
           makeMove = (\<lambda>b t m. if b = Wide \<and> t = BLACK \<and> m \<in> set wide_moves
                                 then Some (Wide_after m) else None),
           getBlackCount = (\<lambda>b. if b = Wide then 20 else 22),
           getRedCount = (\<lambda>b. if b = Wide then 20 else 19),
           zobristTable = (\<lambda>i j. word_of_nat (3 * i + j + 1)),
           std_sort = libstdcxx_sort,
           fround = (\<lambda>q. q)\<rparr>"

text \<open>A state for concrete runs: flag unset, empty table, the given clock.\<close>

definition start_state :: "nat option \<Rightarrow> SearchState" where
  "start_state c = \<lparr>timeoutFlag = False, clock = c, transpositionTable = Map.empty\<rparr>"

text \<open>
  The game \<open>toy\<close> with a broken sort, which overwrites the move of every pair: what the
  final check of \<open>playMove\<close> is there for.
\<close>

definition toy_garbling :: "toy_board externals" where
  "toy_garbling = toy\<lparr>std_sort := (\<lambda>cmp xs. map (\<lambda>p. (fst p, Move 5 5)) xs)\<rparr>"

text \<open>
  A state whose table has, under every key, a usable entry with a best move that is
  legal nowhere in the game \<open>toy\<close>; the clock never expires.
\<close>

definition adversarial_state :: SearchState where
  "adversarial_state =
     \<lparr>timeoutFlag = False, clock = None,
      transpositionTable = (\<lambda>h. Some (TTEntry h 20 123 (Move 5 5)))\<rparr>"

text \<open>A state with the score of every entry of its table set to \<open>0\<close>.\<close>

definition zero_scores :: "SearchState \<Rightarrow> SearchState" where
  "zero_scores s = s\<lparr>transpositionTable :=
     (\<lambda>h. map_option (\<lambda>e. TTEntry (entry_hash e) (entry_depth e) 0 (entry_bestMove e))
            (transpositionTable s h))\<rparr>"

section \<open>Evaluation symmetry\<close>

lemma fold_plus_sum: "fold (\<lambda>m acc. acc + f m) xs a = a + sum_list (map f xs)" for a :: int
  by (induction xs arbitrary: a) simp_all

lemma fold_minus_sum: "fold (\<lambda>m acc. acc - f m) xs a = a - sum_list (map f xs)" for a :: int
  by (induction xs arbitrary: a) simp_all

lemma evaluatePositional_swap: "evaluatePositional oppMoves myMoves = - evaluatePositional myMoves oppMoves"
  by (simp add: evaluatePositional_def fold_plus_sum fold_minus_sum)

lemma opponent_simps [simp]: "opponent BLACK = RED" "opponent RED = BLACK"
  by (simp_all add: opponent_def)

lemma opponent_opponent [simp]: "opponent (opponent t) = t"
  by (cases t) simp_all

lemma cornerScore_opponent:
  "cornerScore env board (opponent perspective) corner = - cornerScore env board perspective corner"
  unfolding cornerScore_def opponent_opponent Let_def by auto

lemma evaluateCorners_opponent:
  "evaluateCorners env board (opponent perspective) = - evaluateCorners env board perspective"
  unfolding evaluateCorners_def by (simp add: cornerScore_opponent)

lemma evaluateStability_opponent:
  "evaluateStability env board (opponent perspective) = - evaluateStability env board perspective"
  unfolding evaluateStability_def Let_def opponent_opponent evaluateCorners_opponent by simp

lemma int_cast_minus: "int_cast (- q) = - int_cast q"
  by (auto simp: int_cast_def ceiling_def)

lemma dmul_minus: "fround_odd env \<Longrightarrow> dmul env a (- b) = - dmul env a b"
  by (simp add: dmul_def fround_odd_def)

lemma dmul_minus_left: "fround_odd env \<Longrightarrow> dmul env (- a) b = - dmul env a b"
  by (simp add: dmul_def fround_odd_def)

lemma dadd_minus: "fround_odd env \<Longrightarrow> dadd env (- a) (- b) = - dadd env a b"
proof -
  assume "fround_odd env"
  moreover have "- a + - b = - (a + b)" by simp
  ultimately show ?thesis unfolding dadd_def fround_odd_def by metis
qed

lemma weighted_minus:
  assumes "fround_odd env"
  shows "int_cast
          (dadd env
            (dadd env
              (dadd env
                (dadd env (dmul env a (of_int (- p)))
                          (dmul env (dmul env b (of_int (- m))) 5))
                (dmul env c (of_int (- k))))
              (dmul env d (of_int (- st))))
            (dmul env e (of_int (- mt)))) =
        - int_cast
          (dadd env
            (dadd env
              (dadd env
                (dadd env (dmul env a (of_int p))
                          (dmul env (dmul env b (of_int m)) 5))
                (dmul env c (of_int k)))
              (dmul env d (of_int st)))
            (dmul env e (of_int mt)))"
  by (simp only: of_int_minus dmul_minus[OF assms] dmul_minus_left[OF assms]
      dadd_minus[OF assms] int_cast_minus)

lemma evaluate_opponent:
  assumes "fround_odd env"
  shows "evaluate env board (opponent perspective) = - evaluate env board perspective"
proof -
  let ?my = "getValidMoves env board perspective"
  let ?opp = "getValidMoves env board (opponent perspective)"
  have material: "(getBlackCount env board - getRedCount env board) *
      (if opponent perspective = BLACK then 1 else - 1) =
      - ((getBlackCount env board - getRedCount env board) *
         (if perspective = BLACK then 1 else - 1))"
    by (cases perspective) simp_all
  have mobility: "int (length ?opp) - int (length ?my) = - (int (length ?my) - int (length ?opp))"
    by simp
  have positional: "evaluatePositional ?opp ?my = - evaluatePositional ?my ?opp"
    by (rule evaluatePositional_swap)
  show ?thesis
    unfolding evaluate_def Let_def opponent_opponent
    by (simp only: material mobility positional evaluateCorners_opponent
        evaluateStability_opponent weighted_minus[OF assms])
qed

text \<open>
  C6. For every position, \<open>evaluate(position, BLACK) == -evaluate(position, RED)\<close>:
  swapping the perspective negates the score exactly. Every term of the weighted sum
  changes its sign with the perspective, and so do the \<open>double\<close> products and sums
  and the truncating cast, rounding being symmetric about zero.
\<close>

theorem evaluate_symmetry:
  assumes "fround_odd env"
  shows "evaluate env board BLACK = - evaluate env board RED"
  using evaluate_opponent[OF assms, of board RED] by simp

lemma toy_fround_odd: "fround_odd toy"
  by (simp add: fround_odd_def toy_def)

theorem evaluate_symmetry_witness:
  "fround_odd toy \<and> evaluate toy T0 BLACK = 6 \<and> evaluate toy T0 RED = - 6"
proof -
  have "evaluate toy T0 RED = - 6"
    by code_simp
  then show ?thesis
    using evaluate_symmetry[OF toy_fround_odd, of T0] toy_fround_odd by simp
qed


section \<open>Move ordering: permutation and order\<close>

subsection \<open>The sort of the synthetic game keeps the contract\<close>

lemma mset_sort_insert: "mset (sort_insert cmp a xs) = add_mset a (mset xs)"
  by (induction xs) simp_all

lemma mset_insertion_sort_aux: "mset (fold (sort_insert cmp) xs acc) = mset xs + mset acc"
  by (induction xs arbitrary: acc) (simp_all add: mset_sort_insert)

lemma mset_insertion_sort: "mset (insertion_sort cmp xs) = mset xs"
  by (simp add: insertion_sort_def mset_insertion_sort_aux)

lemma set_sort_insert: "set (sort_insert cmp a xs) = insert a (set xs)"
  by (induction xs) auto

lemma sorted_sort_insert:
  assumes tot: "\<And>a b c. \<not> cmp b a \<Longrightarrow> \<not> cmp c b \<Longrightarrow> \<not> cmp c a"
    and asym: "\<And>a b. cmp a b \<Longrightarrow> \<not> cmp b a"
  shows "sorted_wrt (\<lambda>a b. \<not> cmp b a) xs \<Longrightarrow> sorted_wrt (\<lambda>a b. \<not> cmp b a) (sort_insert cmp x xs)"
proof (induction xs)
  case Nil
  then show ?case by simp
next
  case (Cons y ys)
  show ?case
  proof (cases "cmp x y")
    case True
    have "\<not> cmp z x" if "z \<in> set ys" for z
    proof -
      from Cons.prems that have "\<not> cmp z y" by simp
      moreover from True have "\<not> cmp y x" by (rule asym)
      ultimately show ?thesis using tot by blast
    qed
    with True Cons.prems show ?thesis by (auto dest: asym)
  next
    case False
    with Cons show ?thesis by (auto simp: set_sort_insert)
  qed
qed

lemma sorted_insertion_sort:
  assumes tot: "\<And>a b c. \<not> cmp b a \<Longrightarrow> \<not> cmp c b \<Longrightarrow> \<not> cmp c a"
    and asym: "\<And>a b. cmp a b \<Longrightarrow> \<not> cmp b a"
  shows "sorted_wrt (\<lambda>a b. \<not> cmp b a) (insertion_sort cmp xs)"
proof -
  have "sorted_wrt (\<lambda>a b. \<not> cmp b a) acc \<Longrightarrow>
        sorted_wrt (\<lambda>a b. \<not> cmp b a) (fold (sort_insert cmp) xs acc)" for acc
  proof (induction xs arbitrary: acc)
    case Nil
    then show ?case by simp
  next
    case (Cons x xs)
    from Cons.prems have "sorted_wrt (\<lambda>a b. \<not> cmp b a) (sort_insert cmp x acc)"
      by (rule sorted_sort_insert[rotated 2]) ((rule tot; assumption), (rule asym; assumption))
    then show ?case using Cons.IH by simp
  qed
  then show ?thesis by (simp add: insertion_sort_def)
qed

lemma toy_sort_contract: "sort_contract toy"
proof -
  have "sorted_wrt (\<lambda>a b. \<not> score_before b a) (insertion_sort score_before xs)" for xs
    by (rule sorted_insertion_sort) (auto simp: score_before_def)
  then show ?thesis
    by (simp add: sort_contract_def toy_def mset_insertion_sort)
qed

subsection \<open>\<open>orderMoves\<close> under the contract of \<open>std::sort\<close>\<close>

lemma orderMoves_mset:
  assumes "sort_contract env"
  shows "mset (orderMoves env moves board turn) = mset moves"
proof (cases "length moves \<le> 1")
  case True
  then show ?thesis by (simp add: orderMoves_def)
next
  case False
  let ?sc = "\<lambda>m. (moveScore env board turn (emptySquares env board) m, m)"
  from assms have sorted_mset:
    "mset (std_sort env score_before (map ?sc moves)) = mset (map ?sc moves)"
    unfolding sort_contract_def by blast
  have "mset (map snd (std_sort env score_before (map ?sc moves))) =
        image_mset snd (mset (std_sort env score_before (map ?sc moves)))"
    by simp
  also have "\<dots> = image_mset snd (mset (map ?sc moves))"
    by (simp only: sorted_mset)
  also have "\<dots> = mset moves"
    by (simp add: image_mset.compositionality comp_def)
  finally show ?thesis using False by (simp add: orderMoves_def)
qed

lemma orderMoves_set:
  assumes "sort_contract env"
  shows "set (orderMoves env moves board turn) = set moves"
  using orderMoves_mset[OF assms] by (metis set_mset_mset)

lemma orderMoves_length:
  assumes "sort_contract env"
  shows "length (orderMoves env moves board turn) = length moves"
  using orderMoves_mset[OF assms] by (metis size_mset)

lemma orderMoves_sorted:
  assumes "sort_contract env"
  shows "sorted_wrt (\<lambda>a b. moveScore env board turn (emptySquares env board) b
                          \<le> moveScore env board turn (emptySquares env board) a)
           (orderMoves env moves board turn)"
proof (cases "length moves \<le> 1")
  case True
  then have "moves = [] \<or> (\<exists>m. moves = [m])"
    by (cases moves) auto
  then show ?thesis by (auto simp: orderMoves_def)
next
  case False
  let ?f = "\<lambda>m. moveScore env board turn (emptySquares env board) m"
  let ?out = "std_sort env score_before (map (\<lambda>m. (?f m, m)) moves)"
  from assms have "mset ?out = mset (map (\<lambda>m. (?f m, m)) moves)"
    unfolding sort_contract_def by blast
  then have "set ?out = set (map (\<lambda>m. (?f m, m)) moves)"
    by (rule mset_eq_setD)
  then have fst_snd: "fst p = ?f (snd p)" if "p \<in> set ?out" for p
    using that by auto
  have "sorted_wrt (\<lambda>a b. \<not> score_before b a) ?out"
    using assms by (simp add: sort_contract_def)
  then have "sorted_wrt (\<lambda>a b. ?f (snd b) \<le> ?f (snd a)) ?out"
    by (rule sorted_wrt_mono_rel[rotated]) (auto simp: score_before_def fst_snd)
  then show ?thesis using False
    by (simp add: orderMoves_def sorted_wrt_map)
qed

subsection \<open>The sort of the library on at most 16 elements\<close>

lemma sort_insert_snoc:
  "cmp x y \<Longrightarrow> sort_insert cmp x (xs @ [y]) = sort_insert cmp x xs @ [y]"
  by (induction xs) simp_all

lemma sort_insert_last:
  "\<forall>y\<in>set xs. \<not> cmp x y \<Longrightarrow> sort_insert cmp x xs = xs @ [x]"
  by (induction xs) simp_all

lemma linear_insert_loop_sort_insert:
  assumes tot: "\<And>a b c. \<not> cmp b a \<Longrightarrow> \<not> cmp c b \<Longrightarrow> \<not> cmp c a"
  shows "n < length v \<Longrightarrow> sorted_wrt (\<lambda>a b. \<not> cmp b a) (take n v) \<Longrightarrow>
    linear_insert_loop cmp val v n = sort_insert cmp val (take n v) @ drop (Suc n) v"
proof (induction n arbitrary: v)
  case 0
  then show ?case by (cases v) simp_all
next
  case (Suc n)
  from Suc.prems have len: "n < length v" by simp
  have tk: "take (Suc n) v = take n v @ [v ! n]"
    using len by (simp add: take_Suc_conv_app_nth)
  show ?case
  proof (cases "cmp val (v ! n)")
    case True
    let ?v = "v[Suc n := v ! n]"
    have srt: "sorted_wrt (\<lambda>a b. \<not> cmp b a) (take n ?v)"
      using Suc.prems(2) tk by (simp add: sorted_wrt_append)
    have "linear_insert_loop cmp val ?v n = sort_insert cmp val (take n ?v) @ drop (Suc n) ?v"
      using Suc.IH[of ?v] len srt by simp
    also have "take n ?v = take n v" by simp
    also have "drop (Suc n) ?v = v ! n # drop (Suc (Suc n)) v"
      using Suc.prems(1) by (simp add: drop_update_swap[symmetric] upd_conv_take_nth_drop Cons_nth_drop_Suc[symmetric])
    finally show ?thesis
      using True tk by (simp add: sort_insert_snoc)
  next
    case False
    have "\<not> cmp val y" if "y \<in> set (take n v)" for y
    proof -
      from Suc.prems(2) tk that have "\<not> cmp (v ! n) y"
        by (simp add: sorted_wrt_append)
      then show ?thesis using False tot by blast
    qed
    with False have "sort_insert cmp val (take (Suc n) v) = take (Suc n) v @ [val]"
      unfolding tk by (intro sort_insert_last) auto
    moreover have "v[Suc n := val] = take (Suc n) v @ val # drop (Suc (Suc n)) v"
      using Suc.prems(1) by (rule upd_conv_take_nth_drop)
    ultimately show ?thesis using False by simp
  qed
qed


lemma insertion_sort_snoc:
  "insertion_sort cmp (xs @ [x]) = sort_insert cmp x (insertion_sort cmp xs)"
  by (simp add: insertion_sort_def)

lemma length_sort_insert: "length (sort_insert cmp a xs) = Suc (length xs)"
  by (induction xs) simp_all

lemma length_insertion_sort: "length (insertion_sort cmp xs) = length xs"
  using mset_insertion_sort[of cmp xs] by (metis size_mset)

lemma std_insertion_sort_step:
  assumes tot: "\<And>a b c. \<not> cmp b a \<Longrightarrow> \<not> cmp c b \<Longrightarrow> \<not> cmp c a"
    and i: "0 < i" "i < length v"
    and srt: "sorted_wrt (\<lambda>a b. \<not> cmp b a) (take i v)"
  shows "(if cmp (v ! i) (v ! 0) then move_backward_one v 0 i
          else std_unguarded_linear_insert cmp v i) =
         sort_insert cmp (v ! i) (take i v) @ drop (Suc i) v"
proof (cases "cmp (v ! i) (v ! 0)")
  case True
  from i obtain xs where tk: "take i v = v ! 0 # xs"
    by (cases v; cases i) auto
  with True show ?thesis
    by (simp add: move_backward_one_def)
next
  case False
  then show ?thesis
    using linear_insert_loop_sort_insert[of cmp i v "v ! i", OF tot i(2) srt]
    by (simp add: std_unguarded_linear_insert_def)
qed

lemma std_insertion_sort_prefix:
  assumes tot: "\<And>a b c. \<not> cmp b a \<Longrightarrow> \<not> cmp c b \<Longrightarrow> \<not> cmp c a"
    and asym: "\<And>a b. cmp a b \<Longrightarrow> \<not> cmp b a"
  shows "Suc k \<le> length v \<Longrightarrow>
    fold (\<lambda>i v. if cmp (v ! i) (v ! 0) then move_backward_one v 0 i
                 else std_unguarded_linear_insert cmp v i) [Suc 0..<Suc k] v =
    insertion_sort cmp (take (Suc k) v) @ drop (Suc k) v"
proof (induction k)
  case 0
  then show ?case
    by (cases v) (simp_all add: insertion_sort_def)
next
  case (Suc k)
  let ?step = "\<lambda>i v. if cmp (v ! i) (v ! 0) then move_backward_one v 0 i
                 else std_unguarded_linear_insert cmp v i"
  let ?w = "insertion_sort cmp (take (Suc k) v) @ drop (Suc k) v"
  from Suc.prems have k: "Suc k < length v" by simp
  have fold_eq: "fold ?step [Suc 0..<Suc (Suc k)] v = ?step (Suc k) (fold ?step [Suc 0..<Suc k] v)"
    by simp
  have w: "fold ?step [Suc 0..<Suc k] v = ?w"
    using Suc.IH k by simp
  have lenp: "length (insertion_sort cmp (take (Suc k) v)) = Suc k"
    using k by (simp add: length_insertion_sort)
  have tkw: "take (Suc k) ?w = insertion_sort cmp (take (Suc k) v)"
    using lenp by simp
  have nthw: "?w ! Suc k = v ! Suc k"
    using lenp k by (simp add: nth_append)
  have dropw: "drop (Suc (Suc k)) ?w = drop (Suc (Suc k)) v"
    using lenp by simp
  have lenw: "Suc k < length ?w"
    using lenp k by simp
  have srt: "sorted_wrt (\<lambda>a b. \<not> cmp b a) (take (Suc k) ?w)"
    unfolding tkw by (rule sorted_insertion_sort) ((rule tot; assumption), (rule asym; assumption))
  have "?step (Suc k) ?w = sort_insert cmp (?w ! Suc k) (take (Suc k) ?w) @ drop (Suc (Suc k)) ?w"
    by (rule std_insertion_sort_step) ((rule tot; assumption), simp, rule lenw, rule srt)
  also have "\<dots> = sort_insert cmp (v ! Suc k) (insertion_sort cmp (take (Suc k) v)) @ drop (Suc (Suc k)) v"
    by (simp only: tkw nthw dropw)
  also have "\<dots> = insertion_sort cmp (take (Suc (Suc k)) v) @ drop (Suc (Suc k)) v"
    using k by (simp add: take_Suc_conv_app_nth[of "Suc k" v] insertion_sort_snoc)
  finally show ?case
    by (simp only: fold_eq w)
qed

lemma std_introsort_loop_small:
  "last_i - first \<le> S_threshold \<Longrightarrow> std_introsort_loop cmp depth_limit first last_i v = v"
  by (cases depth_limit) simp_all

lemma libstdcxx_sort_small:
  assumes tot: "\<And>a b c. \<not> cmp b a \<Longrightarrow> \<not> cmp c b \<Longrightarrow> \<not> cmp c a"
    and asym: "\<And>a b. cmp a b \<Longrightarrow> \<not> cmp b a"
    and len: "length v \<le> 16"
  shows "libstdcxx_sort cmp v = insertion_sort cmp v"
proof (cases v)
  case Nil
  then show ?thesis by (simp add: libstdcxx_sort_def insertion_sort_def)
next
  case (Cons x xs)
  then obtain k where k: "length v = Suc k" by simp
  have "libstdcxx_sort cmp v = std_insertion_sort cmp v 0 (length v)"
    using len Cons
    by (simp add: libstdcxx_sort_def std_introsort_loop_small std_final_insertion_sort_def S_threshold_def)
  also have "\<dots> = insertion_sort cmp (take (Suc k) v) @ drop (Suc k) v"
    unfolding std_insertion_sort_def k
    by (rule std_insertion_sort_prefix) ((rule tot; assumption), (rule asym; assumption), simp add: k)
  finally show ?thesis using k by simp
qed


lemma filter_sort_insert:
  "sorted_wrt (\<lambda>a b. \<not> score_before b a) xs \<Longrightarrow>
   filter (\<lambda>p. fst p = k) (sort_insert score_before a xs) =
   filter (\<lambda>p. fst p = k) xs @ (if fst a = k then [a] else [])"
proof (induction xs)
  case Nil
  then show ?case by simp
next
  case (Cons b bs)
  show ?case
  proof (cases "score_before a b")
    case True
    have lt: "fst p < fst a" if "p \<in> set (b # bs)" for p
      using that True Cons.prems by (auto simp: score_before_def)
    have "filter (\<lambda>p. fst p = k) (b # bs) = []" if "fst a = k"
    proof -
      have "fst p \<noteq> k" if "p \<in> set (b # bs)" for p
        using lt[OF that] \<open>fst a = k\<close> by simp
      then show ?thesis
        by (simp only: filter_empty_conv) blast
    qed
    with True show ?thesis by auto
  next
    case False
    with Cons show ?thesis by simp
  qed
qed

lemma filter_insertion_sort_aux:
  "sorted_wrt (\<lambda>a b. \<not> score_before b a) acc \<Longrightarrow>
   filter (\<lambda>p. fst p = k) (fold (sort_insert score_before) xs acc) =
   filter (\<lambda>p. fst p = k) acc @ filter (\<lambda>p. fst p = k) xs"
proof (induction xs arbitrary: acc)
  case Nil
  then show ?case by simp
next
  case (Cons x xs)
  from Cons.prems have "sorted_wrt (\<lambda>a b. \<not> score_before b a) (sort_insert score_before x acc)"
    by (rule sorted_sort_insert[rotated 2]) (auto simp: score_before_def)
  from Cons.IH[OF this] Cons.prems show ?case
    by (simp add: filter_sort_insert)
qed

lemma filter_insertion_sort:
  "filter (\<lambda>p. fst p = k) (insertion_sort score_before xs) = filter (\<lambda>p. fst p = k) xs"
  by (simp add: insertion_sort_def filter_insertion_sort_aux)

lemma libstdcxx_sort_score_before:
  "length v \<le> 16 \<Longrightarrow> libstdcxx_sort score_before v = insertion_sort score_before v"
  by (rule libstdcxx_sort_small) (auto simp: score_before_def)

lemma orderMoves_tied:
  assumes lib: "std_sort env = libstdcxx_sort" and len: "length moves \<le> 16"
  shows "tied env board turn k (orderMoves env moves board turn) = tied env board turn k moves"
proof (cases "length moves \<le> 1")
  case True
  then show ?thesis by (simp add: orderMoves_def)
next
  case False
  let ?f = "\<lambda>m. moveScore env board turn (emptySquares env board) m"
  let ?pairs = "map (\<lambda>m. (?f m, m)) moves"
  let ?out = "insertion_sort score_before ?pairs"
  have om: "orderMoves env moves board turn = map snd ?out"
    using False lib len by (simp add: orderMoves_def libstdcxx_sort_score_before)
  have "set ?out = set ?pairs"
    using mset_insertion_sort[of score_before ?pairs] by (rule mset_eq_setD)
  then have fst_snd: "fst p = ?f (snd p)" if "p \<in> set ?out" for p
    using that by auto
  have "filter (\<lambda>m. ?f m = k) (map snd ?out) = map snd (filter (\<lambda>p. ?f (snd p) = k) ?out)"
    by (simp add: filter_map comp_def)
  also have "filter (\<lambda>p. ?f (snd p) = k) ?out = filter (\<lambda>p. fst p = k) ?out"
    by (rule filter_cong) (simp_all add: fst_snd)
  also have "\<dots> = filter (\<lambda>p. fst p = k) ?pairs"
    by (rule filter_insertion_sort)
  also have "map snd \<dots> = filter (\<lambda>m. ?f m = k) moves"
    by (simp add: filter_map comp_def)
  finally show ?thesis
    by (simp add: tied_def om)
qed

text \<open>
  C9, as far as the code goes. \<open>orderMoves\<close> returns a permutation of its input
  sorted in descending order of the composite score, whatever sort keeps the contract
  of \<open>std::sort\<close>. With the sort of the GNU C++ library and at most 16 moves, which the
  library sorts by insertion alone, the moves of any one score stand in the output in
  the order they have in the input. With more moves they need not.
\<close>

theorem orderMoves_sorted_permutation:
  "(sort_contract env \<longrightarrow>
      mset (orderMoves env moves board turn) = mset moves \<and>
      sorted_wrt (\<lambda>a b. moveScore env board turn (emptySquares env board) b
                       \<le> moveScore env board turn (emptySquares env board) a)
        (orderMoves env moves board turn)) \<and>
   (std_sort env = libstdcxx_sort \<and> length moves \<le> 16 \<longrightarrow>
      tied env board turn k (orderMoves env moves board turn) = tied env board turn k moves)"
  using orderMoves_mset[of env moves board turn] orderMoves_sorted[of env board turn moves]
    orderMoves_tied[of env moves board turn k]
  by blast

theorem orderMoves_sorted_permutation_witness:
  "sort_contract toy \<and>
   mset (orderMoves toy [Move 1 1, Move 2 3, Move 0 0] T0 BLACK) = mset [Move 1 1, Move 2 3, Move 0 0] \<and>
   orderMoves toy [Move 1 1, Move 2 3, Move 0 0] T0 BLACK = [Move 0 0, Move 2 3, Move 1 1] \<and>
   map (moveScore toy T0 BLACK (emptySquares toy T0)) [Move 0 0, Move 2 3, Move 1 1] = [99900, - 50, - 5000] \<and>
   std_sort wide = libstdcxx_sort \<and>
   tied wide Wide BLACK 5000
     (orderMoves wide
        [Move 0 3, Move 0 4, Move 1 2, Move 1 3, Move 1 4, Move 1 5, Move 2 0, Move 2 1,
         Move 2 6, Move 3 1, Move 3 6, Move 4 1, Move 4 6, Move 5 1, Move 5 6, Move 6 3] Wide BLACK) =
     [Move 0 3, Move 0 4, Move 2 0] \<and>
   tied wide Wide BLACK (- 200)
     (orderMoves wide
        [Move 0 3, Move 0 4, Move 1 2, Move 1 3, Move 1 4, Move 1 5, Move 2 0, Move 2 1,
         Move 2 6, Move 3 1, Move 3 6, Move 4 1, Move 4 6, Move 5 1, Move 5 6, Move 6 3] Wide BLACK) =
     [Move 1 2, Move 1 3, Move 1 4, Move 1 5, Move 2 1, Move 2 6, Move 3 1, Move 3 6, Move 4 1,
      Move 4 6, Move 5 1, Move 5 6, Move 6 3] \<and>
   orderMoves wide
     [Move 0 3, Move 0 4, Move 1 2, Move 1 3, Move 1 4, Move 1 5, Move 2 0, Move 2 1,
      Move 2 6, Move 3 1, Move 3 6, Move 4 1, Move 4 6, Move 5 1, Move 5 6, Move 6 3] Wide BLACK =
     [Move 0 3, Move 0 4, Move 2 0, Move 1 2, Move 1 3, Move 1 4, Move 1 5, Move 2 1,
      Move 2 6, Move 3 1, Move 3 6, Move 4 1, Move 4 6, Move 5 1, Move 5 6, Move 6 3]"
proof -
  let ?ms = "[Move 0 3, Move 0 4, Move 1 2, Move 1 3, Move 1 4, Move 1 5, Move 2 0, Move 2 1,
      Move 2 6, Move 3 1, Move 3 6, Move 4 1, Move 4 6, Move 5 1, Move 5 6, Move 6 3]"
  have o: "orderMoves toy [Move 1 1, Move 2 3, Move 0 0] T0 BLACK = [Move 0 0, Move 2 3, Move 1 1]"
    by code_simp
  have sc: "map (moveScore toy T0 BLACK (emptySquares toy T0)) [Move 0 0, Move 2 3, Move 1 1] = [99900, - 50, - 5000]"
    by code_simp
  have lib: "std_sort wide = libstdcxx_sort"
    by (simp add: wide_def)
  have len: "length ?ms \<le> 16"
    by simp
  have hi: "tied wide Wide BLACK 5000 ?ms = [Move 0 3, Move 0 4, Move 2 0]"
    by code_simp
  have lo: "tied wide Wide BLACK (- 200) ?ms =
     [Move 1 2, Move 1 3, Move 1 4, Move 1 5, Move 2 1, Move 2 6, Move 3 1, Move 3 6, Move 4 1,
      Move 4 6, Move 5 1, Move 5 6, Move 6 3]"
    by code_simp
  have w: "orderMoves wide ?ms Wide BLACK =
     [Move 0 3, Move 0 4, Move 2 0, Move 1 2, Move 1 3, Move 1 4, Move 1 5, Move 2 1,
      Move 2 6, Move 3 1, Move 3 6, Move 4 1, Move 4 6, Move 5 1, Move 5 6, Move 6 3]"
    by code_simp
  from orderMoves_sorted_permutation[of toy "[Move 1 1, Move 2 3, Move 0 0]" T0 BLACK 0] toy_sort_contract
  have m: "mset (orderMoves toy [Move 1 1, Move 2 3, Move 0 0] T0 BLACK) = mset [Move 1 1, Move 2 3, Move 0 0]"
    by blast
  from orderMoves_sorted_permutation[of wide ?ms Wide BLACK 5000] lib len hi
  have h: "tied wide Wide BLACK 5000 (orderMoves wide ?ms Wide BLACK) = [Move 0 3, Move 0 4, Move 2 0]"
    by simp
  from orderMoves_sorted_permutation[of wide ?ms Wide BLACK "- 200"] lib len lo
  have l: "tied wide Wide BLACK (- 200) (orderMoves wide ?ms Wide BLACK) =
     [Move 1 2, Move 1 3, Move 1 4, Move 1 5, Move 2 1, Move 2 6, Move 3 1, Move 3 6, Move 4 1,
      Move 4 6, Move 5 1, Move 5 6, Move 6 3]"
    by simp
  from toy_sort_contract m o sc lib h l w show ?thesis by (intro conjI)
qed

text \<open>
  C9 as stated fails: \<open>std::sort\<close> is not stable. With the sort of the GNU C++ library
  the seventeen moves of \<open>BLACK\<close> at \<open>Wide\<close> come out sorted, but \<open>(0,2)\<close>, the first
  of the input, stands behind \<open>(0,3)\<close> and \<open>(0,4)\<close>, of the same score \<open>5000\<close>, and the
  thirteen moves of score \<open>-200\<close> have changed their order too: the partition of the
  quicksort swaps elements that compare equal to the pivot.
\<close>

theorem orderMoves_not_stable:
  "getValidMoves wide Wide BLACK =
     [Move 0 2, Move 0 3, Move 0 4, Move 1 2, Move 1 3, Move 1 4, Move 1 5, Move 2 0, Move 2 1,
      Move 2 6, Move 3 1, Move 3 6, Move 4 1, Move 4 6, Move 5 1, Move 5 6, Move 6 3] \<and>
   map (moveScore wide Wide BLACK (emptySquares wide Wide)) (getValidMoves wide Wide BLACK) =
     [5000, 5000, 5000, - 200, - 200, - 200, - 200, 5000, - 200, - 200, - 200, - 200, - 200, - 200,
      - 200, - 200, - 200] \<and>
   orderMoves wide (getValidMoves wide Wide BLACK) Wide BLACK =
     [Move 0 3, Move 0 4, Move 0 2, Move 2 0, Move 6 3, Move 5 6, Move 5 1, Move 4 6, Move 4 1,
      Move 3 6, Move 3 1, Move 2 6, Move 2 1, Move 1 5, Move 1 4, Move 1 3, Move 1 2]"
  by code_simp

section \<open>Corners are explored first\<close>

lemma POSITION_WEIGHTS_le: "POSITION_WEIGHTS i j \<le> 100"
proof (cases "0 \<le> i \<and> i < 8 \<and> 0 \<le> j \<and> j < 8")
  case True
  have all: "\<forall>row \<in> set POSITION_WEIGHTS_rows. length row = 8 \<and> (\<forall>v \<in> set row. v \<le> 100)"
    by (simp add: POSITION_WEIGHTS_rows_def)
  have len: "length POSITION_WEIGHTS_rows = 8"
    by (simp add: POSITION_WEIGHTS_rows_def)
  from True have ni: "nat i < 8" and nj: "nat j < 8"
    by linarith+
  from ni len have row: "POSITION_WEIGHTS_rows ! nat i \<in> set POSITION_WEIGHTS_rows"
    by (intro nth_mem) simp
  with all nj have "POSITION_WEIGHTS_rows ! nat i ! nat j \<in> set (POSITION_WEIGHTS_rows ! nat i)"
    by (intro nth_mem) simp
  with all row have "POSITION_WEIGHTS_rows ! nat i ! nat j \<le> 100"
    by blast
  with True show ?thesis by (simp add: POSITION_WEIGHTS_def)
next
  case False
  then show ?thesis unfolding POSITION_WEIGHTS_def by (simp only: if_False)
qed

lemma moveScore_corner:
  assumes "moves_bounded env" "makeMove env board turn m \<noteq> None" "isCorner m"
  shows "96800 \<le> moveScore env board turn n_empty m"
proof -
  from assms(2) obtain temp where temp: "makeMove env board turn m = Some temp"
    by blast
  from assms(1) have "int (length (getValidMoves env temp (opponent turn))) \<le> 64"
    by (simp add: moves_bounded_def)
  with temp assms(3) show ?thesis
    by (simp add: moveScore_def)
qed

lemma moveScore_not_corner:
  assumes "\<not> isCorner m"
  shows "moveScore env board turn n_empty m \<le> 10000"
proof -
  have "POSITION_WEIGHTS (move_x m) (move_y m) * 100 \<le> 10000"
    using POSITION_WEIGHTS_le[of "move_x m" "move_y m"] by simp
  with assms show ?thesis
    by (auto simp: moveScore_def split: option.splits)
qed

text \<open>
  C8. When every move of the input is legal (the framework applies it), every corner
  move stands before every move that is not a corner in the output of \<open>orderMoves\<close>:
  a corner scores at least \<open>100000 - 64 * 50\<close>, any other move at most \<open>10000\<close>.
\<close>

theorem corners_first:
  assumes contract: "sort_contract env"
    and bounded: "moves_bounded env"
    and legal: "\<forall>m \<in> set moves. makeMove env board turn m \<noteq> None"
    and i: "i < length (orderMoves env moves board turn)"
    and j: "j < length (orderMoves env moves board turn)"
    and corner: "isCorner (orderMoves env moves board turn ! i)"
    and other: "\<not> isCorner (orderMoves env moves board turn ! j)"
  shows "i < j"
proof (rule ccontr)
  let ?out = "orderMoves env moves board turn"
  let ?f = "moveScore env board turn (emptySquares env board)"
  assume "\<not> i < j"
  moreover from corner other have "i \<noteq> j" by auto
  ultimately have "j < i" by simp
  with orderMoves_sorted[OF contract, of board turn moves] i
  have "?f (?out ! i) \<le> ?f (?out ! j)"
    by (simp add: sorted_wrt_iff_nth_less)
  moreover from i have "?out ! i \<in> set moves"
    using orderMoves_set[OF contract, of moves board turn] nth_mem by blast
  with legal have "makeMove env board turn (?out ! i) \<noteq> None" by blast
  with bounded corner have "96800 \<le> ?f (?out ! i)" by (intro moveScore_corner)
  moreover from other have "?f (?out ! j) \<le> 10000" by (rule moveScore_not_corner)
  ultimately show False by simp
qed

lemma toy_moves_bounded: "moves_bounded toy"
proof -
  have "length (toy_moves b t) \<le> 64" for b t
    by (cases b; cases t) simp_all
  then show ?thesis by (simp add: moves_bounded_def toy_def)
qed

theorem corners_first_witness:
  "sort_contract toy \<and> moves_bounded toy \<and>
   makeMove toy T0 BLACK (Move 1 1) = Some T3 \<and>
   makeMove toy T0 BLACK (Move 2 3) = Some T2 \<and>
   makeMove toy T0 BLACK (Move 0 0) = Some T1 \<and>
   isCorner (orderMoves toy [Move 1 1, Move 2 3, Move 0 0] T0 BLACK ! 0) \<and>
   \<not> isCorner (orderMoves toy [Move 1 1, Move 2 3, Move 0 0] T0 BLACK ! 2) \<and> (0::nat) < 2"
proof -
  have legal: "\<forall>m \<in> set [Move 1 1, Move 2 3, Move 0 0]. makeMove toy T0 BLACK m \<noteq> None"
    by (simp add: toy_def)
  have out: "orderMoves toy [Move 1 1, Move 2 3, Move 0 0] T0 BLACK = [Move 0 0, Move 2 3, Move 1 1]"
    by code_simp
  have "isCorner (orderMoves toy [Move 1 1, Move 2 3, Move 0 0] T0 BLACK ! 0)"
    and "\<not> isCorner (orderMoves toy [Move 1 1, Move 2 3, Move 0 0] T0 BLACK ! 2)"
    by (simp_all add: out isCorner_def)
  then show ?thesis
    using corners_first[OF toy_sort_contract toy_moves_bounded legal, of 0 2]
      toy_sort_contract toy_moves_bounded
    by (simp add: out toy_def)
qed

section \<open>The root search returns an enumerated move\<close>

lemma rootSearch_moves_best:
  "fst (fst (rootSearch_moves env board turn depth ms iterBest iterScore s)) \<in> insert iterBest (set ms)"
proof (induction ms arbitrary: iterBest iterScore s)
  case Nil
  show ?case by simp
next
  case (Cons m ms)
  show ?case
  proof (cases "isTimeUp s")
    case (Pair tu s1)
    show ?thesis
    proof (cases tu)
      case True
      with Pair show ?thesis by simp
    next
      case False
      show ?thesis
      proof (cases "makeMove env board turn m")
        case None
        with Pair False Cons.IH[of iterBest iterScore s1] show ?thesis by auto
      next
        case (Some newBoard)
        obtain score s2 where ab: "alphaBeta env newBoard (opponent turn) (nat (depth - 1))
            (- INF_score) INF_score turn s1 = (score, s2)"
          by (cases "alphaBeta env newBoard (opponent turn) (nat (depth - 1))
            (- INF_score) INF_score turn s1")
        show ?thesis
          using Pair False Some ab Cons.IH[of m score s2] Cons.IH[of iterBest iterScore s2]
          by auto
      qed
    qed
  qed
qed

lemma rootSearch_loop_best:
  "bestMove \<in> set moves \<Longrightarrow>
   fst (rootSearch_loop env board turn maxDepth depth moves bestMove s) \<in> set moves"
proof (induction env board turn maxDepth depth moves bestMove s rule: rootSearch_loop.induct)
  case (1 env board turn maxDepth depth moves bestMove s)
  show ?case
  proof (cases "depth \<le> maxDepth")
    case False
    with "1.prems" show ?thesis by simp
  next
    case le: True
    obtain tu s1 where t1: "(tu, s1) = isTimeUp s" by (metis surj_pair)
    show ?thesis
    proof (cases tu)
      case True
      with le t1[symmetric] "1.prems" show ?thesis by simp
    next
      case False
      obtain iterBest iterScore s2 where it:
        "((iterBest, iterScore), s2) = rootSearch_moves env board turn depth moves bestMove (- INF_score) s1"
        by (metis surj_pair)
      obtain tu2 s3 where t2: "(tu2, s3) = isTimeUp s2" by (metis surj_pair)
      from rootSearch_moves_best[of env board turn depth moves bestMove "- INF_score" s1]
        it[symmetric] "1.prems"
      have ib: "iterBest \<in> set moves" by auto
      show ?thesis
      proof (cases tu2)
        case True
        then have "\<not> \<not> tu2" by simp
        from "1.IH"(2)[OF le t1 False it refl t2 this "1.prems"]
        show ?thesis using le t1[symmetric] False t2[symmetric] True it[symmetric] by simp
      next
        case nt: False
        have "iterBest \<in> set (iterBest # removeAll iterBest moves)" by simp
        from "1.IH"(1)[OF le t1 False it refl t2 nt this]
        have "fst (rootSearch_loop env board turn maxDepth (depth + 2)
                (iterBest # removeAll iterBest moves) iterBest s3) \<in> set (iterBest # removeAll iterBest moves)" .
        with ib show ?thesis using le t1[symmetric] False t2[symmetric] nt it[symmetric] by auto
      qed
    qed
  qed
qed

lemma rootSearch_best:
  assumes "sort_contract env" and "getValidMoves env board turn \<noteq> []"
  shows "fst (rootSearch env board turn maxDepth s) \<in> set (getValidMoves env board turn)"
proof -
  let ?moves = "getValidMoves env board turn"
  let ?ordered = "orderMoves env ?moves board turn"
  from assms have "?ordered \<noteq> []"
    using orderMoves_length[OF assms(1), of ?moves board turn] by auto
  then have "hd ?ordered \<in> set ?ordered" by simp
  then have "fst (rootSearch_loop env board turn maxDepth 2 ?ordered (hd ?ordered) s) \<in> set ?ordered"
    by (rule rootSearch_loop_best)
  then have "fst (rootSearch_loop env board turn maxDepth 2 ?ordered (hd ?ordered) s) \<in> set ?moves"
    by (simp add: orderMoves_set[OF assms(1)])
  with assms(2) show ?thesis
    by (simp add: rootSearch_def Let_def)
qed

text \<open>
  C10. With at least two legal moves, the move \<open>rootSearch\<close> returns is one of the
  moves it enumerated at entry, whatever the clock does; so when \<open>validateMove\<close>
  accepts every enumerated move, \<open>playMove\<close> returns the result of \<open>rootSearch\<close>
  as it is: the fallback branch is not taken.
\<close>

theorem rootSearch_returns_enumerated_move:
  assumes "sort_contract env" and "2 \<le> length (getValidMoves env board turn)"
  shows "fst (rootSearch env board turn maxDepth s) \<in> set (getValidMoves env board turn) \<and>
         ((\<forall>m \<in> set (getValidMoves env board turn). validateMove env board turn m) \<longrightarrow>
          playMove env board turn s =
            rootSearch env board turn (adaptiveDepth (emptySquares env board))
              (s\<lparr>timeoutFlag := False, transpositionTable := Map.empty\<rparr>))"
proof -
  from assms(2) have ne: "getValidMoves env board turn \<noteq> []" by auto
  have best: "fst (rootSearch env board turn md s') \<in> set (getValidMoves env board turn)" for md s'
    using assms(1) ne by (rule rootSearch_best)
  show ?thesis
  proof (intro conjI impI)
    show "fst (rootSearch env board turn maxDepth s) \<in> set (getValidMoves env board turn)"
      by (rule best)
  next
    assume valid: "\<forall>m \<in> set (getValidMoves env board turn). validateMove env board turn m"
    let ?s0 = "s\<lparr>timeoutFlag := False, transpositionTable := Map.empty\<rparr>"
    let ?r = "rootSearch env board turn (adaptiveDepth (emptySquares env board)) ?s0"
    obtain bm s1 where r: "?r = (bm, s1)" by (cases ?r)
    from valid best[of "adaptiveDepth (emptySquares env board)" ?s0]
    have "validateMove env board turn (fst ?r)" by blast
    with r have "validateMove env board turn bm" by simp
    with assms(2) ne r show "playMove env board turn s = ?r"
      by (simp add: playMove_def Let_def)
  qed
qed


lemma toy_validateMove: "validateMove toy b t m \<longleftrightarrow> m \<in> set (getValidMoves toy b t)"
  by (simp add: toy_def)

theorem rootSearch_returns_enumerated_move_witness:
  "sort_contract toy \<and> 2 \<le> length (getValidMoves toy T0 BLACK) \<and>
   fst (rootSearch toy T0 BLACK 4 (start_state (Some 5))) = Move 0 0 \<and>
   Move 0 0 \<in> set (getValidMoves toy T0 BLACK) \<and>
   playMove toy T0 BLACK (start_state (Some 5)) =
     rootSearch toy T0 BLACK (adaptiveDepth (emptySquares toy T0)) (start_state (Some 5))"
proof -
  have len: "2 \<le> length (getValidMoves toy T0 BLACK)"
    by (simp add: toy_def)
  have run: "fst (rootSearch toy T0 BLACK 4 (start_state (Some 5))) = Move 0 0"
    by code_simp
  have valid: "\<forall>m \<in> set (getValidMoves toy T0 BLACK). validateMove toy T0 BLACK m"
    by (simp add: toy_validateMove)
  have reset: "start_state (Some 5)\<lparr>timeoutFlag := False, transpositionTable := Map.empty\<rparr> =
      start_state (Some 5)"
    by (simp add: start_state_def)
  show ?thesis
    using rootSearch_returns_enumerated_move[OF toy_sort_contract len, of 4 "start_state (Some 5)"]
      toy_sort_contract len run valid
    by (simp add: reset)
qed


section \<open>The move played is legal\<close>

text \<open>
  C1. On a position where the side to move has a legal move, the move \<open>playMove\<close>
  returns passes the legality check of the framework, given that every enumerated
  move does. In particular, when the move of the search fails the final check, the
  first enumerated move is returned, and it is legal.
\<close>

theorem playMove_legal:
  assumes "getValidMoves env board turn \<noteq> []"
    and "\<forall>m \<in> set (getValidMoves env board turn). validateMove env board turn m"
  shows "validateMove env board turn (fst (playMove env board turn s)) \<and>
         (2 \<le> length (getValidMoves env board turn) \<and>
          \<not> validateMove env board turn
              (fst (rootSearch env board turn (adaptiveDepth (emptySquares env board))
                     (s\<lparr>timeoutFlag := False, transpositionTable := Map.empty\<rparr>))) \<longrightarrow>
          fst (playMove env board turn s) = hd (getValidMoves env board turn))"
proof -
  let ?s0 = "s\<lparr>timeoutFlag := False, transpositionTable := Map.empty\<rparr>"
  let ?r = "rootSearch env board turn (adaptiveDepth (emptySquares env board)) ?s0"
  obtain bm s1 where r: "?r = (bm, s1)" by (cases ?r)
  from assms have "validateMove env board turn (hd (getValidMoves env board turn))"
    by simp
  with assms(1) r show ?thesis
    by (auto simp: playMove_def Let_def)
qed

theorem playMove_legal_witness:
  "getValidMoves toy T0 BLACK \<noteq> [] \<and>
   fst (playMove toy T0 BLACK (start_state None)) = Move 1 1 \<and>
   validateMove toy T0 BLACK (Move 1 1) \<and>
   fst (rootSearch toy_garbling T0 BLACK (adaptiveDepth (emptySquares toy_garbling T0))
          (start_state (Some 0))) = Move 5 5 \<and>
   \<not> validateMove toy_garbling T0 BLACK (Move 5 5) \<and>
   fst (playMove toy_garbling T0 BLACK (start_state (Some 0))) = Move 1 1 \<and>
   hd (getValidMoves toy_garbling T0 BLACK) = Move 1 1"
proof -
  have ne: "getValidMoves toy T0 BLACK \<noteq> []" and ne': "getValidMoves toy_garbling T0 BLACK \<noteq> []"
    by (simp_all add: toy_def toy_garbling_def)
  have valid: "\<forall>m \<in> set (getValidMoves toy T0 BLACK). validateMove toy T0 BLACK m"
    by (simp add: toy_validateMove)
  have valid': "\<forall>m \<in> set (getValidMoves toy_garbling T0 BLACK). validateMove toy_garbling T0 BLACK m"
    by (simp add: toy_garbling_def toy_def)
  have run: "fst (playMove toy T0 BLACK (start_state None)) = Move 1 1"
    by code_simp
  have reset: "start_state (Some 0)\<lparr>timeoutFlag := False, transpositionTable := Map.empty\<rparr> =
      start_state (Some 0)"
    by (simp add: start_state_def)
  have search: "fst (rootSearch toy_garbling T0 BLACK (adaptiveDepth (emptySquares toy_garbling T0))
          (start_state (Some 0))) = Move 5 5"
    by code_simp
  have invalid: "\<not> validateMove toy_garbling T0 BLACK (Move 5 5)"
    by (simp add: toy_garbling_def toy_def)
  have len: "2 \<le> length (getValidMoves toy_garbling T0 BLACK)"
    by (simp add: toy_garbling_def toy_def)
  have first: "hd (getValidMoves toy_garbling T0 BLACK) = Move 1 1"
    by (simp add: toy_garbling_def toy_def)
  show ?thesis
    using playMove_legal[OF ne valid, of "start_state None"]
      playMove_legal[OF ne' valid', of "start_state (Some 0)"]
      ne run search invalid len first
    by (simp add: reset)
qed

section \<open>Iterative deepening keeps completed iterations only\<close>

lemma isTimeUp_expired: "expired s \<Longrightarrow> isTimeUp s = (True, s\<lparr>timeoutFlag := True\<rparr>)"
  by (cases s) (auto simp: expired_def isTimeUp_def)

lemma isTimeUp_not_expired: "\<not> expired s \<Longrightarrow> fst (isTimeUp s) = False"
  by (auto simp: expired_def isTimeUp_def split: option.splits nat.splits)

lemma isTimeUp_True_expired: "isTimeUp s = (True, s') \<Longrightarrow> expired s \<and> expired s'"
  by (auto simp: expired_def isTimeUp_def split: if_splits option.splits nat.splits)

lemma expired_flag: "expired (s\<lparr>timeoutFlag := True\<rparr>)"
  by (simp add: expired_def)

lemma rootSearch_loop_expired:
  "expired s \<Longrightarrow> fst (rootSearch_loop env board turn maxDepth depth moves bestMove s) = bestMove"
  by (subst rootSearch_loop.simps) (simp add: isTimeUp_expired)

text \<open>
  C5. An iteration of the root driver that started (the clock check before it passed)
  ends in a state \<open>s2\<close>. If the budget has expired by then, \<open>rootSearch_loop\<close> returns
  the running best move it was entered with: the result \<open>iterBest\<close> of the iteration is
  dropped. Only when the budget has not expired does \<open>iterBest\<close> become the running
  best of the next depth.
\<close>

theorem iteration_committed_only_if_completed:
  assumes "depth \<le> maxDepth"
    and "isTimeUp s = (False, s1)"
    and "rootSearch_moves env board turn depth moves bestMove (- INF_score) s1 =
           ((iterBest, iterScore), s2)"
  shows "(expired s2 \<longrightarrow>
            fst (rootSearch_loop env board turn maxDepth depth moves bestMove s) = bestMove) \<and>
         (\<not> expired s2 \<longrightarrow>
            rootSearch_loop env board turn maxDepth depth moves bestMove s =
            rootSearch_loop env board turn maxDepth (depth + 2)
              (iterBest # removeAll iterBest moves) iterBest (snd (isTimeUp s2)))"
proof (intro conjI impI)
  assume ex: "expired s2"
  then have up: "isTimeUp s2 = (True, s2\<lparr>timeoutFlag := True\<rparr>)"
    by (rule isTimeUp_expired)
  have "rootSearch_loop env board turn maxDepth depth moves bestMove s =
        rootSearch_loop env board turn maxDepth (depth + 2) moves bestMove (s2\<lparr>timeoutFlag := True\<rparr>)"
    by (subst rootSearch_loop.simps) (simp add: assms up)
  then show "fst (rootSearch_loop env board turn maxDepth depth moves bestMove s) = bestMove"
    by (simp add: rootSearch_loop_expired expired_flag del: rootSearch_loop.simps)
next
  assume "\<not> expired s2"
  then obtain s3 where "isTimeUp s2 = (False, s3)"
    using isTimeUp_not_expired[of s2] by (cases "isTimeUp s2") auto
  then show "rootSearch_loop env board turn maxDepth depth moves bestMove s =
            rootSearch_loop env board turn maxDepth (depth + 2)
              (iterBest # removeAll iterBest moves) iterBest (snd (isTimeUp s2))"
    by (subst rootSearch_loop.simps) (simp add: assms del: rootSearch_loop.simps)
qed


theorem iteration_committed_only_if_completed_witness:
  "2 \<le> (4::int) \<and>
   isTimeUp (start_state (Some 9)) = (False, start_state (Some 8)) \<and>
   fst (rootSearch_moves toy T0 BLACK 2 [Move 0 0, Move 2 3, Move 1 1] (Move 0 0) (- INF_score)
          (start_state (Some 8))) = (Move 2 3, 41) \<and>
   expired (snd (rootSearch_moves toy T0 BLACK 2 [Move 0 0, Move 2 3, Move 1 1] (Move 0 0)
          (- INF_score) (start_state (Some 8)))) \<and>
   fst (rootSearch_loop toy T0 BLACK 4 2 [Move 0 0, Move 2 3, Move 1 1] (Move 0 0)
          (start_state (Some 9))) = Move 0 0"
proof -
  let ?ms = "[Move 0 0, Move 2 3, Move 1 1]"
  let ?r = "rootSearch_moves toy T0 BLACK 2 ?ms (Move 0 0) (- INF_score) (start_state (Some 8))"
  have t: "isTimeUp (start_state (Some 9)) = (False, start_state (Some 8))"
    by (simp add: isTimeUp_def start_state_def)
  have r: "fst ?r = (Move 2 3, 41)"
    by code_simp
  then have r': "?r = ((Move 2 3, 41), snd ?r)"
    by (metis prod.collapse)
  have e: "expired (snd ?r)"
    by code_simp
  show ?thesis
    using iteration_committed_only_if_completed[of 2 4 "start_state (Some 9)" "start_state (Some 8)"
        toy T0 BLACK ?ms "Move 0 0" "Move 2 3" 41 "snd ?r", OF _ t r'] t r e
    by simp
qed


section \<open>Where the values of the search come from\<close>

declare alphaBeta.simps [simp del]

declare alphaBeta_loop.simps [simp del]

lemma alphaBeta_value_origin:
  "value_origin env perspective (fst (alphaBeta env board currTurn d alpha beta perspective s))"
  "value_origin env perspective bestVal \<Longrightarrow>
   value_origin env perspective
     (fst (fst (alphaBeta_loop env board currTurn cd perspective ms alpha beta bestVal bestMove s)))"
proof (induction env board currTurn d alpha beta perspective s
    and env board currTurn cd perspective ms alpha beta bestVal bestMove s
    rule: alphaBeta_alphaBeta_loop.induct)
  case (1 env board currTurn d alpha beta perspective s)
  let ?my = "getValidMoves env board currTurn"
  let ?opp = "getValidMoves env board (opponent currTurn)"
  have ev: "value_origin env perspective (evaluate env board perspective)"
    by (auto simp: value_origin_def)
  obtain tu s1 where t: "(tu, s1) = isTimeUp s" by (metis surj_pair)
  show ?case
  proof (cases "tu \<or> d = 0 \<or> (?my = [] \<and> ?opp = [])")
    case True
    with t[symmetric] ev show ?thesis
      by (subst alphaBeta.simps) (auto simp: Let_def)
  next
    case False
    then have ntu: "\<not> tu" and nleaf: "\<not> (d = 0 \<or> (?my = [] \<and> ?opp = []))" by auto
    show ?thesis
    proof (cases "?my = []")
      case True
      from "1.IH"(1)[OF t ntu refl refl nleaf True] t[symmetric] ntu nleaf True
      show ?thesis
        by (subst alphaBeta.simps) (simp add: Let_def)
    next
      case ne: False
      let ?h = "zobrist_hash env board"
      let ?ordered = "orderMoves env (ttPromote (transpositionTable s1) ?h d ?my) board currTurn"
      let ?bv = "if currTurn = perspective then - INF_score else INF_score"
      let ?loop = "alphaBeta_loop env board currTurn (d - 1) perspective ?ordered alpha beta ?bv
            (hd ?ordered) s1"
      have init: "value_origin env perspective ?bv"
        by (simp add: value_origin_def)
      from "1.IH"(2)[OF t ntu refl refl nleaf ne refl refl refl refl refl init]
      have "value_origin env perspective (fst (fst ?loop))" .
      moreover have "fst (alphaBeta env board currTurn d alpha beta perspective s) = fst (fst ?loop)"
        using t[symmetric] ntu nleaf ne
        by (subst alphaBeta.simps) (simp add: Let_def split: prod.splits)
      ultimately show ?thesis by simp
    qed
  qed
next
  case (2 env board currTurn cd perspective alpha beta bestVal bestMove s)
  then show ?case by (simp add: alphaBeta_loop.simps)
next
  case (3 env board currTurn cd perspective m ms alpha beta bestVal bestMove s)
  obtain tu s1 where t: "(tu, s1) = isTimeUp s" by (metis surj_pair)
  show ?case
  proof (cases tu)
    case True
    with t[symmetric] "3.prems" show ?thesis
      by (subst alphaBeta_loop.simps) simp
  next
    case ntu: False
    show ?thesis
    proof (cases "makeMove env board currTurn m")
      case None
      from "3.IH"(1)[OF t ntu None "3.prems"] t[symmetric] ntu None show ?thesis
        by (subst alphaBeta_loop.simps) simp
    next
      case (Some newBoard)
      obtain val s2 where ab:
        "(val, s2) = alphaBeta env newBoard (opponent currTurn) cd alpha beta perspective s1"
        by (metis surj_pair)
      let ?mx = "currTurn = perspective"
      let ?bv = "if ?mx then if bestVal < val then val else bestVal
                 else if val < bestVal then val else bestVal"
      let ?bm = "if ?mx then if bestVal < val then m else bestMove
                 else if val < bestVal then m else bestMove"
      let ?a = "if ?mx then max alpha val else alpha"
      let ?b = "if ?mx then beta else min beta val"
      from "3.IH"(2)[OF t ntu Some] ab[symmetric] have "value_origin env perspective val"
        by simp
      with "3.prems" have bv: "value_origin env perspective ?bv" by simp
      show ?thesis
      proof (cases "?b \<le> ?a")
        case True
        with t[symmetric] ntu Some ab[symmetric] bv show ?thesis
          by (subst alphaBeta_loop.simps) (simp add: Let_def)
      next
        case False
        from "3.IH"(3)[OF t ntu Some ab refl refl refl refl refl False bv]
          t[symmetric] ntu Some ab[symmetric] False
        show ?thesis
          by (subst alphaBeta_loop.simps) (simp add: Let_def)
      qed
    qed
  qed
qed

section \<open>The search after the budget has expired\<close>

lemma alphaBeta_expired:
  "expired s \<Longrightarrow>
   alphaBeta env board currTurn d alpha beta perspective s =
     (evaluate env board perspective, s\<lparr>timeoutFlag := True\<rparr>)"
  by (subst alphaBeta.simps) (simp add: isTimeUp_expired)

lemma alphaBeta_loop_expired:
  "expired s \<Longrightarrow>
   alphaBeta_loop env board currTurn cd perspective (m # ms) alpha beta bestVal bestMove s =
     ((bestVal, bestMove), s\<lparr>timeoutFlag := True\<rparr>)"
  by (subst alphaBeta_loop.simps) (simp add: isTimeUp_expired)

lemma alphaBeta_loop_running_best:
  "fst (fst (alphaBeta_loop env board currTurn cd perspective ms alpha beta bestVal bestMove s)) =
   running_best (currTurn = perspective)
     (explored_values env board currTurn cd perspective ms alpha beta s) bestVal"
proof (induction ms arbitrary: alpha beta bestVal bestMove s)
  case Nil
  show ?case by (simp add: alphaBeta_loop.simps running_best_def)
next
  case (Cons m ms)
  obtain tu s1 where t: "isTimeUp s = (tu, s1)" by (metis surj_pair)
  show ?case
  proof (cases tu)
    case True
    with t show ?thesis
      by (subst alphaBeta_loop.simps) (simp add: running_best_def)
  next
    case ntu: False
    show ?thesis
    proof (cases "makeMove env board currTurn m")
      case None
      with t ntu Cons.IH[of alpha beta bestVal bestMove s1] show ?thesis
        by (subst alphaBeta_loop.simps) simp
    next
      case (Some newBoard)
      obtain val s2 where call:
        "alphaBeta env newBoard (opponent currTurn) cd alpha beta perspective s1 = (val, s2)"
        by (metis surj_pair)
      let ?mx = "currTurn = perspective"
      let ?bv = "if ?mx then if bestVal < val then val else bestVal
                 else if val < bestVal then val else bestVal"
      let ?bm = "if ?mx then if bestVal < val then m else bestMove
                 else if val < bestVal then m else bestMove"
      let ?a = "if ?mx then max alpha val else alpha"
      let ?b = "if ?mx then beta else min beta val"
      have bv: "?bv = (if ?mx then max bestVal val else min bestVal val)"
        by (simp add: max_def min_def)
      show ?thesis
      proof (cases "?b \<le> ?a")
        case True
        have "fst (fst (alphaBeta_loop env board currTurn cd perspective (m # ms) alpha beta bestVal bestMove s)) = ?bv"
          using t ntu Some call True by (subst alphaBeta_loop.simps) (simp add: Let_def)
        moreover have "explored_values env board currTurn cd perspective (m # ms) alpha beta s = [val]"
          using t ntu Some call True by (simp add: Let_def)
        ultimately show ?thesis
          by (simp only: bv running_best_def) simp
      next
        case False
        have "alphaBeta_loop env board currTurn cd perspective (m # ms) alpha beta bestVal bestMove s =
              alphaBeta_loop env board currTurn cd perspective ms ?a ?b ?bv ?bm s2"
          using t ntu Some call False by (subst alphaBeta_loop.simps) (simp add: Let_def)
        moreover have "explored_values env board currTurn cd perspective (m # ms) alpha beta s =
              val # explored_values env board currTurn cd perspective ms ?a ?b s2"
          using t ntu Some call False by (simp add: Let_def)
        ultimately show ?thesis
          using Cons.IH[of ?a ?b ?bv ?bm s2]
          by (simp only: bv running_best_def) simp
      qed
    qed
  qed
qed

lemma alphaBeta_node_loop:
  assumes "isTimeUp s = (False, s1)" and "d \<noteq> 0" and "getValidMoves env board currTurn \<noteq> []"
  shows "fst (alphaBeta env board currTurn d alpha beta perspective s) =
        fst (fst (alphaBeta_loop env board currTurn (d - 1) perspective
          (orderMoves env (ttPromote (transpositionTable s1) (zobrist_hash env board) d
             (getValidMoves env board currTurn)) board currTurn)
          alpha beta (if currTurn = perspective then - INF_score else INF_score)
          (hd (orderMoves env (ttPromote (transpositionTable s1) (zobrist_hash env board) d
             (getValidMoves env board currTurn)) board currTurn))
          s1))"
  using assms by (subst alphaBeta.simps) (simp add: Let_def split: prod.splits)

text \<open>
  C4, as far as the code goes. A call of \<open>alphaBeta\<close> entered once the budget has
  expired returns the static evaluation of its node and searches nothing. A call that
  the expiry interrupts returns its running best value at that moment:

    \<^item> the loop over the moves, when it finds the budget expired, returns the best value
      and the best move that it holds, whatever moves are left;

    \<^item> the value the loop returns is the best of the value it started with and the
      values that the calls for the children have returned to it, the value of a call
      during which the budget expired included;

    \<^item> a node that passed the check at entry and has moves returns that best value, its
      loop starting with \<open>-INF\<close> (with \<open>+INF\<close> where the opponent moves).

  Whenever \<open>alphaBeta\<close> returns, its value is the static evaluation of some position
  or the initial best value of a node.
\<close>

theorem alphaBeta_after_expiry:
  "(expired s \<longrightarrow>
      alphaBeta env board currTurn d alpha beta perspective s =
        (evaluate env board perspective, s\<lparr>timeoutFlag := True\<rparr>)) \<and>
   (expired s \<longrightarrow>
      alphaBeta_loop env board currTurn cd perspective (m # ms) alpha beta bestVal bestMove s =
        ((bestVal, bestMove), s\<lparr>timeoutFlag := True\<rparr>)) \<and>
   fst (fst (alphaBeta_loop env board currTurn cd perspective moves alpha beta bestVal bestMove s)) =
     running_best (currTurn = perspective)
       (explored_values env board currTurn cd perspective moves alpha beta s) bestVal \<and>
   (isTimeUp s = (False, s1) \<and> d \<noteq> 0 \<and> getValidMoves env board currTurn \<noteq> [] \<longrightarrow>
      fst (alphaBeta env board currTurn d alpha beta perspective s) =
        running_best (currTurn = perspective)
          (explored_values env board currTurn (d - 1) perspective
             (orderMoves env (ttPromote (transpositionTable s1) (zobrist_hash env board) d
                (getValidMoves env board currTurn)) board currTurn)
             alpha beta s1)
          (if currTurn = perspective then - INF_score else INF_score)) \<and>
   value_origin env perspective (fst (alphaBeta env board currTurn d alpha beta perspective s))"
proof (intro conjI impI)
  assume "expired s"
  then show "alphaBeta env board currTurn d alpha beta perspective s =
        (evaluate env board perspective, s\<lparr>timeoutFlag := True\<rparr>)"
    by (rule alphaBeta_expired)
next
  assume "expired s"
  then show "alphaBeta_loop env board currTurn cd perspective (m # ms) alpha beta bestVal bestMove s =
        ((bestVal, bestMove), s\<lparr>timeoutFlag := True\<rparr>)"
    by (rule alphaBeta_loop_expired)
next
  show "fst (fst (alphaBeta_loop env board currTurn cd perspective moves alpha beta bestVal bestMove s)) =
     running_best (currTurn = perspective)
       (explored_values env board currTurn cd perspective moves alpha beta s) bestVal"
    by (rule alphaBeta_loop_running_best)
next
  assume "isTimeUp s = (False, s1) \<and> d \<noteq> 0 \<and> getValidMoves env board currTurn \<noteq> []"
  then show "fst (alphaBeta env board currTurn d alpha beta perspective s) =
        running_best (currTurn = perspective)
          (explored_values env board currTurn (d - 1) perspective
             (orderMoves env (ttPromote (transpositionTable s1) (zobrist_hash env board) d
                (getValidMoves env board currTurn)) board currTurn)
             alpha beta s1)
          (if currTurn = perspective then - INF_score else INF_score)"
    by (simp add: alphaBeta_node_loop alphaBeta_loop_running_best)
next
  show "value_origin env perspective (fst (alphaBeta env board currTurn d alpha beta perspective s))"
    by (rule alphaBeta_value_origin(1))
qed

theorem alphaBeta_after_expiry_witness:
  "expired (start_state (Some 0)) \<and>
   fst (alphaBeta toy T0 BLACK 2 (- INF_score) INF_score BLACK (start_state (Some 0))) = 6 \<and>
   evaluate toy T0 BLACK = 6 \<and>
   fst (alphaBeta_loop toy T0 BLACK 1 BLACK [Move 2 3, Move 1 1] 2 INF_score 2 (Move 0 0)
         (start_state (Some 0))) = (2, Move 0 0) \<and>
   explored_values toy T0 BLACK 1 BLACK [Move 0 0, Move 2 3, Move 1 1] (- INF_score) INF_score
     (start_state (Some 8)) = [0, 41] \<and>
   fst (fst (alphaBeta_loop toy T0 BLACK 1 BLACK [Move 0 0, Move 2 3, Move 1 1] (- INF_score) INF_score
         (- INF_score) (Move 0 0) (start_state (Some 8)))) = 41 \<and>
   isTimeUp (start_state (Some 9)) = (False, start_state (Some 8)) \<and>
   fst (alphaBeta toy T0 BLACK 2 (- INF_score) INF_score BLACK (start_state (Some 9))) = 41"
proof -
  let ?ms = "[Move 0 0, Move 2 3, Move 1 1]"
  have e: "expired (start_state (Some 0))"
    by (simp add: expired_def start_state_def)
  have v: "evaluate toy T0 BLACK = 6"
    by code_simp
  have t9: "isTimeUp (start_state (Some 9)) = (False, start_state (Some 8))"
    by (simp add: isTimeUp_def start_state_def eval_nat_numeral)
  have ex: "explored_values toy T0 BLACK 1 BLACK ?ms (- INF_score) INF_score (start_state (Some 8)) = [0, 41]"
    by code_simp
  have ord: "orderMoves toy (ttPromote (transpositionTable (start_state (Some 8))) (zobrist_hash toy T0) 2
             (getValidMoves toy T0 BLACK)) T0 BLACK = ?ms"
    by code_simp
  have my: "getValidMoves toy T0 BLACK \<noteq> []"
    by code_simp
  have rb: "running_best True [0, 41] (- INF_score) = 41"
    by (simp add: running_best_def INF_score_def)
  note entry = alphaBeta_after_expiry[of "start_state (Some 0)" toy T0 BLACK 2 "- INF_score" INF_score
      BLACK 1 "Move 2 3" "[Move 1 1]" 2 "Move 0 0" ?ms]
  note held = alphaBeta_after_expiry[of "start_state (Some 0)" toy T0 BLACK 1 2 INF_score
      BLACK 1 "Move 2 3" "[Move 1 1]" 2 "Move 0 0" ?ms]
  note loop = alphaBeta_after_expiry[of "start_state (Some 8)" toy T0 BLACK 2 "- INF_score" INF_score
      BLACK 1 "Move 2 3" "[Move 1 1]" "- INF_score" "Move 0 0" ?ms]
  note node = alphaBeta_after_expiry[of "start_state (Some 9)" toy T0 BLACK 2 "- INF_score" INF_score
      BLACK 1 "Move 2 3" "[Move 1 1]" "- INF_score" "Move 0 0" ?ms "start_state (Some 8)"]
  from entry e v have a: "fst (alphaBeta toy T0 BLACK 2 (- INF_score) INF_score BLACK (start_state (Some 0))) = 6"
    by simp
  from held e have b: "fst (alphaBeta_loop toy T0 BLACK 1 BLACK [Move 2 3, Move 1 1] 2 INF_score 2 (Move 0 0)
         (start_state (Some 0))) = (2, Move 0 0)"
    by simp
  from loop ex rb
  have c: "fst (fst (alphaBeta_loop toy T0 BLACK 1 BLACK ?ms (- INF_score) INF_score
         (- INF_score) (Move 0 0) (start_state (Some 8)))) = 41"
    by simp
  from node t9 my ord ex rb
  have d: "fst (alphaBeta toy T0 BLACK 2 (- INF_score) INF_score BLACK (start_state (Some 9))) = 41"
    by simp
  from e a v b ex c t9 d show ?thesis by (intro conjI)
qed

text \<open>
  C4 as stated fails: when the budget expires between the check at entry and the check
  before the first child, the call returns the initial best value \<open>-INF\<close>, which is
  not the static evaluation of any position of the game, and no child was explored.
\<close>

theorem alphaBeta_interrupted_returns_sentinel:
  "fst (alphaBeta toy T0 BLACK 2 (- INF_score) INF_score BLACK (start_state (Some 1))) = - 1000000 \<and>
   evaluate toy T0 BLACK = 6 \<and> evaluate toy T1 BLACK = 2 \<and> evaluate toy T2 BLACK = 41 \<and>
   evaluate toy T3 BLACK = 14 \<and> evaluate toy T4 BLACK = 0 \<and> evaluate toy T5 BLACK = 1 \<and>
   evaluate toy T6 BLACK = - 1 \<and> evaluate toy T7 BLACK = 5"
  by code_simp


section \<open>The depths of the endgame search\<close>

text \<open>
  C3 at a position with three empty squares. \<open>T1\<close> has three empty squares and two
  moves for \<open>RED\<close>, so \<open>playMove\<close> calls \<open>rootSearch\<close> with \<open>maxDepth = 3\<close>. The
  loop over the depths \<open>2, 4, \<dots>\<close> then runs the iteration of depth \<open>2\<close> and no
  other: no iteration searches to depth \<open>3\<close>.
\<close>

theorem three_empty_squares_one_iteration:
  "emptySquares toy T1 = 3 \<and> length (getValidMoves toy T1 RED) = 2 \<and>
   adaptiveDepth (emptySquares toy T1) = 3 \<and>
   rootSearch_loop env board turn 3 2 moves bestMove s =
     (case isTimeUp s of (timeUp, s1) \<Rightarrow>
        if timeUp then (bestMove, s1)
        else (case rootSearch_moves env board turn 2 moves bestMove (- INF_score) s1 of
                ((iterBest, iterScore), s2) \<Rightarrow>
                  (case isTimeUp s2 of (timeUp', s3) \<Rightarrow>
                     if \<not> timeUp' then (iterBest, s3) else (bestMove, s3))))"
proof -
  have "emptySquares toy T1 = 3" "length (getValidMoves toy T1 RED) = 2"
    by (simp_all add: emptySquares_def toy_def)
  moreover have "adaptiveDepth 3 = 3"
    by (simp add: adaptiveDepth_def MAX_DEPTH_def)
  moreover have stop: "rootSearch_loop env board turn 3 4 ms bm s' = (bm, s')" for ms bm s'
    by (subst rootSearch_loop.simps) simp
  have "rootSearch_loop env board turn 3 2 moves bestMove s =
     (case isTimeUp s of (timeUp, s1) \<Rightarrow>
        if timeUp then (bestMove, s1)
        else (case rootSearch_moves env board turn 2 moves bestMove (- INF_score) s1 of
                ((iterBest, iterScore), s2) \<Rightarrow>
                  (case isTimeUp s2 of (timeUp', s3) \<Rightarrow>
                     if \<not> timeUp' then (iterBest, s3) else (bestMove, s3))))"
    by (subst rootSearch_loop.simps) (simp add: stop split: prod.splits del: rootSearch_loop.simps)
  ultimately show ?thesis by simp
qed

section \<open>Alpha-beta with the full window is minimax\<close>

declare minimax.simps [simp del]

subsection \<open>Folding \<open>max\<close> and \<open>min\<close>\<close>

lemma fold_max_eq_Max: "fold max xs a = Max (insert a (set xs))" for a :: int
  using Max.set_eq_fold[of a xs] by simp

lemma fold_min_eq_Min: "fold min xs a = Min (insert a (set xs))" for a :: int
  using Min.set_eq_fold[of a xs] by simp

lemma fold_max_set: "set xs = set ys \<Longrightarrow> fold max xs a = fold max ys a" for a :: int
  by (simp add: fold_max_eq_Max)

lemma fold_min_set: "set xs = set ys \<Longrightarrow> fold min xs a = fold min ys a" for a :: int
  by (simp add: fold_min_eq_Min)

lemma fold_max_ge: "a \<le> fold max xs a" for a :: int
  by (simp add: fold_max_eq_Max)

lemma fold_min_le: "fold min xs a \<le> a" for a :: int
  by (simp add: fold_min_eq_Min)

lemma fold_max_max: "fold max xs (max a b) = max b (fold max xs a)" for a :: int
proof (induction xs arbitrary: a)
  case Nil
  show ?case by (simp add: max.commute)
next
  case (Cons x xs)
  have "max x (max a b) = max (max x a) b" by (simp add: max.assoc)
  with Cons.IH[of "max x a"] show ?case by simp
qed

lemma fold_min_min: "fold min xs (min a b) = min b (fold min xs a)" for a :: int
proof (induction xs arbitrary: a)
  case Nil
  show ?case by (simp add: min.commute)
next
  case (Cons x xs)
  have "min x (min a b) = min (min x a) b" by (simp add: min.assoc)
  with Cons.IH[of "min x a"] show ?case by simp
qed

lemma fold_max_bounds:
  "lo \<le> a \<Longrightarrow> a \<le> hi \<Longrightarrow> \<forall>x \<in> set xs. lo \<le> x \<and> x \<le> hi \<Longrightarrow>
   lo \<le> fold max xs a \<and> fold max xs a \<le> hi" for a :: int
  by (induction xs arbitrary: a) auto

lemma fold_min_bounds:
  "lo \<le> a \<Longrightarrow> a \<le> hi \<Longrightarrow> \<forall>x \<in> set xs. lo \<le> x \<and> x \<le> hi \<Longrightarrow>
   lo \<le> fold min xs a \<and> fold min xs a \<le> hi" for a :: int
  by (induction xs arbitrary: a) auto

subsection \<open>The children of a node\<close>

lemma set_successors:
  "set (successors env board turn ms) = {nb. \<exists>m \<in> set ms. makeMove env board turn m = Some nb}"
proof (induction ms)
  case Nil
  show ?case by (simp add: successors_def)
next
  case (Cons m ms)
  then show ?case
    by (cases "makeMove env board turn m") (auto simp: successors_def)
qed

lemma successors_Cons:
  "successors env board turn (m # ms) =
    (case makeMove env board turn m of None \<Rightarrow> successors env board turn ms
     | Some nb \<Rightarrow> nb # successors env board turn ms)"
  by (simp add: successors_def split: option.splits)

lemma successors_Nil: "successors env board turn [] = []"
  by (simp add: successors_def)

lemma set_ttPromote:
  "set (ttPromote table h d ms) = set ms \<or>
   (\<exists>bm. set (ttPromote table h d ms) = insert bm (set ms))"
  by (auto simp: ttPromote_def split: option.splits)

lemma successors_ordered:
  assumes "sort_contract env" and "makeMove_sound env"
  shows "set (successors env board turn
           (orderMoves env (ttPromote table h d (getValidMoves env board turn)) board turn)) =
         set (successors env board turn (getValidMoves env board turn))"
proof -
  let ?my = "getValidMoves env board turn"
  have "set (successors env board turn (ttPromote table h d ?my)) = set (successors env board turn ?my)"
  proof -
    consider "set (ttPromote table h d ?my) = set ?my"
      | bm where "set (ttPromote table h d ?my) = insert bm (set ?my)"
      using set_ttPromote[of table h d ?my] by blast
    then show ?thesis
    proof cases
      case 1
      then show ?thesis by (simp add: set_successors)
    next
      case 2
      have "bm \<in> set ?my" if "makeMove env board turn bm = Some nb" for nb
        using assms(2) that by (simp add: makeMove_sound_def)
      with 2 show ?thesis by (auto simp: set_successors)
    qed
  qed
  then show ?thesis
    by (simp add: set_successors orderMoves_set[OF assms(1)])
qed

lemma isTimeUp_never: "never_expires s \<Longrightarrow> isTimeUp s = (False, s)"
  by (simp add: never_expires_def isTimeUp_def)

lemma never_expires_table [simp]:
  "never_expires (s\<lparr>transpositionTable := tt\<rparr>) = never_expires s"
  by (simp add: never_expires_def)

lemma alphaBeta_never_expires:
  "never_expires s \<Longrightarrow>
   never_expires (snd (alphaBeta env board currTurn d alpha beta perspective s))"
  "never_expires s \<Longrightarrow>
   never_expires (snd (alphaBeta_loop env board currTurn cd perspective ms alpha beta bestVal bestMove s))"
proof (induction env board currTurn d alpha beta perspective s
    and env board currTurn cd perspective ms alpha beta bestVal bestMove s
    rule: alphaBeta_alphaBeta_loop.induct)
  case (1 env board currTurn d alpha beta perspective s)
  let ?my = "getValidMoves env board currTurn"
  let ?opp = "getValidMoves env board (opponent currTurn)"
  have t: "(False, s) = isTimeUp s" using "1.prems" by (simp add: isTimeUp_never)
  show ?case
  proof (cases "d = 0 \<or> (?my = [] \<and> ?opp = [])")
    case True
    with t[symmetric] "1.prems" show ?thesis
      by (subst alphaBeta.simps) (auto simp: Let_def)
  next
    case nleaf: False
    show ?thesis
    proof (cases "?my = []")
      case True
      from "1.IH"(1)[OF t _ refl refl nleaf True "1.prems"] t[symmetric] nleaf True
      show ?thesis
        by (subst alphaBeta.simps) (simp add: Let_def)
    next
      case ne: False
      let ?h = "zobrist_hash env board"
      let ?ordered = "orderMoves env (ttPromote (transpositionTable s) ?h d ?my) board currTurn"
      let ?bv = "if currTurn = perspective then - INF_score else INF_score"
      let ?loop = "alphaBeta_loop env board currTurn (d - 1) perspective ?ordered alpha beta ?bv
            (hd ?ordered) s"
      from "1.IH"(2)[OF t _ refl refl nleaf ne refl refl refl refl refl "1.prems"]
      have n2: "never_expires (snd ?loop)" by simp
      obtain bv bm s2 where l: "?loop = ((bv, bm), s2)" by (metis surj_pair)
      with n2 have "never_expires s2" by simp
      then show ?thesis
        using t[symmetric] nleaf ne l
        by (subst alphaBeta.simps) (simp add: Let_def isTimeUp_never)
    qed
  qed
next
  case (2 env board currTurn cd perspective alpha beta bestVal bestMove s)
  then show ?case by (simp add: alphaBeta_loop.simps)
next
  case (3 env board currTurn cd perspective m ms alpha beta bestVal bestMove s)
  have t: "(False, s) = isTimeUp s" using "3.prems" by (simp add: isTimeUp_never)
  show ?case
  proof (cases "makeMove env board currTurn m")
    case None
    from "3.IH"(1)[OF t _ None "3.prems"] t[symmetric] None show ?thesis
      by (subst alphaBeta_loop.simps) simp
  next
    case (Some newBoard)
    obtain val s2 where ab:
      "(val, s2) = alphaBeta env newBoard (opponent currTurn) cd alpha beta perspective s"
      by (metis surj_pair)
    let ?mx = "currTurn = perspective"
    let ?bv = "if ?mx then if bestVal < val then val else bestVal
               else if val < bestVal then val else bestVal"
    let ?bm = "if ?mx then if bestVal < val then m else bestMove
               else if val < bestVal then m else bestMove"
    let ?a = "if ?mx then max alpha val else alpha"
    let ?b = "if ?mx then beta else min beta val"
    from "3.IH"(2)[OF t _ Some "3.prems"] ab[symmetric] have n2: "never_expires s2"
      by simp
    show ?thesis
    proof (cases "?b \<le> ?a")
      case True
      with t[symmetric] Some ab[symmetric] n2 show ?thesis
        by (subst alphaBeta_loop.simps) (simp add: Let_def)
    next
      case False
      from "3.IH"(3)[OF t _ Some ab refl refl refl refl refl False n2]
        t[symmetric] Some ab[symmetric] False
      show ?thesis
        by (subst alphaBeta_loop.simps) (simp add: Let_def)
    qed
  qed
qed


lemma window_exact_refl: "window_exact alpha beta v v"
  by (simp add: window_exact_def)

lemma max_step_cutoff:
  assumes "bv \<le> alpha" "alpha < beta" "window_exact alpha beta r1 v1" "beta \<le> max alpha r1"
  shows "window_exact alpha beta (max bv r1) (max v1 X) \<and> bv \<le> max bv r1"
  using assms unfolding window_exact_def by (auto simp: max_def split: if_splits)

lemma max_step_continue:
  assumes "bv \<le> alpha" "alpha < beta" "bv \<le> X" "window_exact alpha beta r1 v1"
    and "\<not> beta \<le> max alpha r1"
    and "window_exact (max alpha r1) beta R (max r1 X)" "max bv r1 \<le> R"
  shows "window_exact alpha beta R (max v1 X) \<and> bv \<le> R"
  using assms unfolding window_exact_def by (auto simp: max_def split: if_splits)

lemma min_step_cutoff:
  assumes "beta \<le> bv" "alpha < beta" "window_exact alpha beta r1 v1" "min beta r1 \<le> alpha"
  shows "window_exact alpha beta (min bv r1) (min v1 X) \<and> min bv r1 \<le> bv"
  using assms unfolding window_exact_def by (auto simp: min_def split: if_splits)

lemma min_step_continue:
  assumes "beta \<le> bv" "alpha < beta" "X \<le> bv" "window_exact alpha beta r1 v1"
    and "\<not> min beta r1 \<le> alpha"
    and "window_exact alpha (min beta r1) R (min r1 X)" "R \<le> min bv r1"
  shows "window_exact alpha beta R (min v1 X) \<and> R \<le> bv"
  using assms unfolding window_exact_def by (auto simp: min_def split: if_splits)

lemma child_values_Nil [simp]: "child_values env board currTurn cd perspective [] = []"
  by (simp add: child_values_def successors_Nil)

lemma child_values_None:
  "makeMove env board currTurn m = None \<Longrightarrow>
   child_values env board currTurn cd perspective (m # ms) =
   child_values env board currTurn cd perspective ms"
  by (simp add: child_values_def successors_Cons)

lemma child_values_Some:
  "makeMove env board currTurn m = Some nb \<Longrightarrow>
   child_values env board currTurn cd perspective (m # ms) =
   minimax env nb (opponent currTurn) cd perspective #
   child_values env board currTurn cd perspective ms"
  by (simp add: child_values_def successors_Cons)

lemma if_less_max: "(if a < b then b else a) = max a b" for a :: int
  by simp

lemma if_less_min: "(if b < a then b else a) = min a b" for a :: int
  by simp

lemma alphaBeta_window:
  "sort_contract env \<Longrightarrow> makeMove_sound env \<Longrightarrow> never_expires s \<Longrightarrow>
   alpha < beta \<Longrightarrow> - INF_score \<le> alpha \<Longrightarrow> beta \<le> INF_score \<Longrightarrow>
   window_exact alpha beta (fst (alphaBeta env board currTurn d alpha beta perspective s))
     (minimax env board currTurn d perspective)"
  "sort_contract env \<Longrightarrow> makeMove_sound env \<Longrightarrow> never_expires s \<Longrightarrow>
   alpha < beta \<Longrightarrow> - INF_score \<le> alpha \<Longrightarrow> beta \<le> INF_score \<Longrightarrow>
   (currTurn = perspective \<longrightarrow> bestVal \<le> alpha) \<Longrightarrow>
   (currTurn \<noteq> perspective \<longrightarrow> beta \<le> bestVal) \<Longrightarrow>
   (if currTurn = perspective then
      window_exact alpha beta
        (fst (fst (alphaBeta_loop env board currTurn cd perspective ms alpha beta bestVal bestMove s)))
        (fold max (child_values env board currTurn cd perspective ms) bestVal) \<and>
      bestVal \<le> fst (fst (alphaBeta_loop env board currTurn cd perspective ms alpha beta bestVal bestMove s))
    else
      window_exact alpha beta
        (fst (fst (alphaBeta_loop env board currTurn cd perspective ms alpha beta bestVal bestMove s)))
        (fold min (child_values env board currTurn cd perspective ms) bestVal) \<and>
      fst (fst (alphaBeta_loop env board currTurn cd perspective ms alpha beta bestVal bestMove s)) \<le> bestVal)"
proof (induction env board currTurn d alpha beta perspective s
    and env board currTurn cd perspective ms alpha beta bestVal bestMove s
    rule: alphaBeta_alphaBeta_loop.induct)
  case (1 env board currTurn d alpha beta perspective s)
  note sc = "1.prems"(1) and ms = "1.prems"(2) and nv = "1.prems"(3)
    and ab = "1.prems"(4) and lo = "1.prems"(5) and hi = "1.prems"(6)
  let ?my = "getValidMoves env board currTurn"
  let ?opp = "getValidMoves env board (opponent currTurn)"
  have t: "(False, s) = isTimeUp s" using nv by (simp add: isTimeUp_never)
  show ?case
  proof (cases "d = 0 \<or> (?my = [] \<and> ?opp = [])")
    case True
    then have "fst (alphaBeta env board currTurn d alpha beta perspective s) = evaluate env board perspective"
      using t[symmetric] by (subst alphaBeta.simps) (auto simp: Let_def)
    moreover from True have "minimax env board currTurn d perspective = evaluate env board perspective"
      by (subst minimax.simps) (auto simp: Let_def)
    ultimately show ?thesis by (simp add: window_exact_refl)
  next
    case nleaf: False
    show ?thesis
    proof (cases "?my = []")
      case True
      have "alphaBeta env board currTurn d alpha beta perspective s =
            alphaBeta env board (opponent currTurn) d alpha beta perspective s"
        using t[symmetric] nleaf True by (subst alphaBeta.simps) (simp add: Let_def)
      moreover have "minimax env board currTurn d perspective =
            minimax env board (opponent currTurn) d perspective"
        using nleaf True by (subst minimax.simps) (simp add: Let_def)
      ultimately show ?thesis
        using "1.IH"(1)[OF t _ refl refl nleaf True sc ms nv ab lo hi] by simp
    next
      case ne: False
      let ?h = "zobrist_hash env board"
      let ?ordered = "orderMoves env (ttPromote (transpositionTable s) ?h d ?my) board currTurn"
      let ?bv = "if currTurn = perspective then - INF_score else INF_score"
      let ?loop = "alphaBeta_loop env board currTurn (d - 1) perspective ?ordered alpha beta ?bv
            (hd ?ordered) s"
      have b1: "currTurn = perspective \<longrightarrow> ?bv \<le> alpha" using lo by simp
      have b2: "currTurn \<noteq> perspective \<longrightarrow> beta \<le> ?bv" using hi by simp
      note loop = "1.IH"(2)[OF t _ refl refl nleaf ne refl refl refl refl refl sc ms nv ab lo hi b1 b2]
      obtain bv bm s2 where l: "?loop = ((bv, bm), s2)" by (metis surj_pair)
      have r: "fst (alphaBeta env board currTurn d alpha beta perspective s) = fst (fst ?loop)"
        using t[symmetric] nleaf ne l
        by (subst alphaBeta.simps) (simp add: Let_def split: prod.splits)
      have "set (child_values env board currTurn (d - 1) perspective ?ordered) =
            set (child_values env board currTurn (d - 1) perspective ?my)"
        unfolding child_values_def set_map successors_ordered[OF sc ms] ..
      then have vals:
        "fold max (child_values env board currTurn (d - 1) perspective ?ordered) x =
         fold max (child_values env board currTurn (d - 1) perspective ?my) x"
        "fold min (child_values env board currTurn (d - 1) perspective ?ordered) x =
         fold min (child_values env board currTurn (d - 1) perspective ?my) x" for x
        by (rule fold_max_set, rule fold_min_set)
      have v: "minimax env board currTurn d perspective =
          (if currTurn = perspective
           then fold max (child_values env board currTurn (d - 1) perspective ?my) (- INF_score)
           else fold min (child_values env board currTurn (d - 1) perspective ?my) INF_score)"
        using nleaf ne by (subst minimax.simps) (simp add: Let_def child_values_def)
      show ?thesis
        using loop unfolding r v vals by (simp split: if_splits)
    qed
  qed
next
  case (2 env board currTurn cd perspective alpha beta bestVal bestMove s)
  then show ?case
    by (simp add: alphaBeta_loop.simps window_exact_refl)
next
  case (3 env board currTurn cd perspective m ms alpha beta bestVal bestMove s)
  note sc = "3.prems"(1) and msd = "3.prems"(2) and nv = "3.prems"(3)
    and ab = "3.prems"(4) and lo = "3.prems"(5) and hi = "3.prems"(6)
    and b1 = "3.prems"(7) and b2 = "3.prems"(8)
  have t: "(False, s) = isTimeUp s" using nv by (simp add: isTimeUp_never)
  show ?case
  proof (cases "makeMove env board currTurn m")
    case None
    have eq: "alphaBeta_loop env board currTurn cd perspective (m # ms) alpha beta bestVal bestMove s =
          alphaBeta_loop env board currTurn cd perspective ms alpha beta bestVal bestMove s"
      using t[symmetric] None by (subst alphaBeta_loop.simps) simp
    show ?thesis
      unfolding eq child_values_None[OF None]
      by (rule "3.IH"(1)[OF t _ None sc msd nv ab lo hi b1 b2]) simp
  next
    case (Some newBoard)
    obtain val s2 where call:
      "(val, s2) = alphaBeta env newBoard (opponent currTurn) cd alpha beta perspective s"
      by (metis surj_pair)
    let ?mx = "currTurn = perspective"
    let ?bv = "if ?mx then if bestVal < val then val else bestVal
               else if val < bestVal then val else bestVal"
    let ?bm = "if ?mx then if bestVal < val then m else bestMove
               else if val < bestVal then m else bestMove"
    let ?a = "if ?mx then max alpha val else alpha"
    let ?b = "if ?mx then beta else min beta val"
    let ?v1 = "minimax env newBoard (opponent currTurn) cd perspective"
    let ?rest = "child_values env board currTurn cd perspective ms"
    from "3.IH"(2)[OF t _ Some sc msd nv ab lo hi] call[symmetric]
    have child: "window_exact alpha beta val ?v1" by simp
    from alphaBeta_never_expires(1)[OF nv, of env newBoard "opponent currTurn" cd alpha beta perspective]
      call[symmetric]
    have nv2: "never_expires s2" by simp
    have cv: "child_values env board currTurn cd perspective (m # ms) = ?v1 # ?rest"
      by (rule child_values_Some[OF Some])
    show ?thesis
    proof (cases "?b \<le> ?a")
      case True
      have res: "fst (fst (alphaBeta_loop env board currTurn cd perspective (m # ms) alpha beta
                   bestVal bestMove s)) = ?bv"
        using t[symmetric] Some call[symmetric] True
        by (subst alphaBeta_loop.simps) (simp add: Let_def)
      show ?thesis
      proof (cases ?mx)
        case mx: True
        from True mx have cut: "beta \<le> max alpha val" by simp
        from b1 mx have "bestVal \<le> alpha" by simp
        from max_step_cutoff[OF this ab child cut, of "fold max ?rest bestVal"]
        show ?thesis
          unfolding res cv using mx
          by (simp add: fold_max_max if_less_max max.commute)
      next
        case mn: False
        from True mn have cut: "min beta val \<le> alpha" by simp
        from b2 mn have "beta \<le> bestVal" by simp
        from min_step_cutoff[OF this ab child cut, of "fold min ?rest bestVal"]
        show ?thesis
          unfolding res cv using mn
          by (simp add: fold_min_min if_less_min min.commute)
      qed
    next
      case False
      have res: "fst (fst (alphaBeta_loop env board currTurn cd perspective (m # ms) alpha beta
                   bestVal bestMove s)) =
            fst (fst (alphaBeta_loop env board currTurn cd perspective ms ?a ?b ?bv ?bm s2))"
        using t[symmetric] Some call[symmetric] False
        by (subst alphaBeta_loop.simps) (simp add: Let_def)
      have ab': "?a < ?b" using False by simp
      have lo': "- INF_score \<le> ?a" using lo by (auto simp: max_def)
      have hi': "?b \<le> INF_score" using hi by (auto simp: min_def)
      show ?thesis
      proof (cases ?mx)
        case mx: True
        from b1 mx have bva: "bestVal \<le> alpha" by simp
        have b1': "?mx \<longrightarrow> ?bv \<le> ?a" using bva mx by simp
        have b2': "\<not> ?mx \<longrightarrow> ?b \<le> ?bv" using mx by simp
        from "3.IH"(3)[OF t _ Some call refl refl refl refl refl False sc msd nv2 ab' lo' hi' b1' b2'] mx
        have ih: "window_exact (max alpha val) beta
                    (fst (fst (alphaBeta_loop env board currTurn cd perspective ms ?a ?b ?bv ?bm s2)))
                    (fold max ?rest (max bestVal val))"
          and ge: "max bestVal val \<le>
                    fst (fst (alphaBeta_loop env board currTurn cd perspective ms ?a ?b ?bv ?bm s2))"
          by (simp_all add: if_less_max)
        from False mx have nc: "\<not> beta \<le> max alpha val" by simp
        from ih have ih': "window_exact (max alpha val) beta
                    (fst (fst (alphaBeta_loop env board currTurn cd perspective ms ?a ?b ?bv ?bm s2)))
                    (max val (fold max ?rest bestVal))"
          by (simp add: fold_max_max)
        from max_step_continue[OF bva ab fold_max_ge child nc ih' ge]
        show ?thesis
          unfolding res cv using mx by (simp add: fold_max_max max.commute)
      next
        case mn: False
        from b2 mn have bvb: "beta \<le> bestVal" by simp
        have b1': "?mx \<longrightarrow> ?bv \<le> ?a" using mn by simp
        have b2': "\<not> ?mx \<longrightarrow> ?b \<le> ?bv" using bvb mn by simp
        from "3.IH"(3)[OF t _ Some call refl refl refl refl refl False sc msd nv2 ab' lo' hi' b1' b2'] mn
        have ih: "window_exact alpha (min beta val)
                    (fst (fst (alphaBeta_loop env board currTurn cd perspective ms ?a ?b ?bv ?bm s2)))
                    (fold min ?rest (min bestVal val))"
          and le: "fst (fst (alphaBeta_loop env board currTurn cd perspective ms ?a ?b ?bv ?bm s2))
                    \<le> min bestVal val"
          by (simp_all add: if_less_min)
        from False mn have nc: "\<not> min beta val \<le> alpha" by simp
        from ih have ih': "window_exact alpha (min beta val)
                    (fst (fst (alphaBeta_loop env board currTurn cd perspective ms ?a ?b ?bv ?bm s2)))
                    (min val (fold min ?rest bestVal))"
          by (simp add: fold_min_min)
        from min_step_continue[OF bvb ab fold_min_le child nc ih' le]
        show ?thesis
          unfolding res cv using mn by (simp add: fold_min_min min.commute)
      qed
    qed
  qed
qed

lemma minimax_bounded:
  "\<forall>b. \<bar>evaluate env b perspective\<bar> \<le> INF_score \<Longrightarrow>
   - INF_score \<le> minimax env board currTurn d perspective \<and>
   minimax env board currTurn d perspective \<le> INF_score"
proof (induction env board currTurn d perspective rule: minimax.induct)
  case (1 env board currTurn d perspective)
  let ?my = "getValidMoves env board currTurn"
  let ?opp = "getValidMoves env board (opponent currTurn)"
  have inf: "0 \<le> INF_score" by (simp add: INF_score_def)
  show ?case
  proof (cases "d = 0 \<or> (?my = [] \<and> ?opp = [])")
    case True
    then have "minimax env board currTurn d perspective = evaluate env board perspective"
      by (subst minimax.simps) (auto simp: Let_def)
    with "1.prems" show ?thesis
      by (metis abs_le_iff minus_le_iff)
  next
    case nleaf: False
    show ?thesis
    proof (cases "?my = []")
      case True
      have "minimax env board currTurn d perspective =
            minimax env board (opponent currTurn) d perspective"
        using nleaf True by (subst minimax.simps) (simp add: Let_def)
      with "1.IH"(1)[OF refl refl nleaf True "1.prems"] show ?thesis by simp
    next
      case ne: False
      let ?vals = "child_values env board currTurn (d - 1) perspective ?my"
      have v: "minimax env board currTurn d perspective =
          (if currTurn = perspective then fold max ?vals (- INF_score) else fold min ?vals INF_score)"
        using nleaf ne by (subst minimax.simps) (simp add: Let_def child_values_def)
      have all: "\<forall>x \<in> set ?vals. - INF_score \<le> x \<and> x \<le> INF_score"
        using "1.IH"(2)[OF refl refl nleaf ne _ "1.prems"]
        by (auto simp: child_values_def)
      have mx: "- INF_score \<le> fold max ?vals (- INF_score) \<and>
                fold max ?vals (- INF_score) \<le> INF_score"
        using fold_max_bounds[of "- INF_score" "- INF_score" INF_score ?vals, OF _ _ all] inf
        by simp
      have mn: "- INF_score \<le> fold min ?vals INF_score \<and> fold min ?vals INF_score \<le> INF_score"
        using fold_min_bounds[of "- INF_score" INF_score INF_score ?vals, OF _ _ all] inf
        by simp
      show ?thesis
      proof (cases "currTurn = perspective")
        case True
        with v have "minimax env board currTurn d perspective = fold max ?vals (- INF_score)"
          by simp
        with mx show ?thesis by simp
      next
        case False
        with v have "minimax env board currTurn d perspective = fold min ?vals INF_score"
          by simp
        with mn show ?thesis by simp
      qed
    qed
  qed
qed

text \<open>
  C2. When the budget never expires, \<open>alphaBeta\<close> with the full window
  \<open>(-INF, +INF)\<close> returns the value of the unpruned minimax search of the same tree
  to the same depth, whatever the table holds and however the moves are ordered. It
  relies on the contract of \<open>std::sort\<close>, on \<open>makeMove\<close> rejecting the moves that
  \<open>getValidMoves\<close> does not enumerate, and on static evaluations within
  \<open>[-INF, +INF]\<close>.
\<close>

theorem alphaBeta_full_window_is_minimax:
  assumes "sort_contract env" and "makeMove_sound env" and "never_expires s"
    and "\<forall>b. \<bar>evaluate env b perspective\<bar> \<le> INF_score"
  shows "fst (alphaBeta env board currTurn d (- INF_score) INF_score perspective s) =
         minimax env board currTurn d perspective"
proof -
  let ?r = "fst (alphaBeta env board currTurn d (- INF_score) INF_score perspective s)"
  let ?v = "minimax env board currTurn d perspective"
  have "- INF_score < INF_score" by (simp add: INF_score_def)
  from alphaBeta_window(1)[OF assms(1-3) this, of board currTurn d perspective]
  have w: "window_exact (- INF_score) INF_score ?r ?v" by simp
  have v: "- INF_score \<le> ?v \<and> ?v \<le> INF_score"
    using assms(4) by (rule minimax_bounded)
  have "value_origin env perspective ?r"
    by (rule alphaBeta_value_origin(1))
  then consider "?r = INF_score" | "?r = - INF_score" | b where "?r = evaluate env b perspective"
    unfolding value_origin_def by blast
  then have r: "- INF_score \<le> ?r \<and> ?r \<le> INF_score"
  proof cases
    case 1
    then show ?thesis by (simp add: INF_score_def)
  next
    case 2
    then show ?thesis by (simp add: INF_score_def)
  next
    case 3
    from assms(4) have "\<bar>evaluate env b perspective\<bar> \<le> INF_score" by blast
    with 3 show ?thesis by linarith
  qed
  from w v r show ?thesis
    unfolding window_exact_def by linarith
qed

lemma toy_makeMove_sound: "makeMove_sound toy"
  by (force simp: makeMove_sound_def toy_def dest: map_of_SomeD)

lemma toy_evaluate_bounded: "\<bar>evaluate toy b p\<bar> \<le> INF_score"
  by (cases b; cases p) (simp_all only: INF_score_def, code_simp+)

theorem alphaBeta_full_window_is_minimax_witness:
  "sort_contract toy \<and> makeMove_sound toy \<and> never_expires adversarial_state \<and>
   fst (alphaBeta toy T0 BLACK 3 (- INF_score) INF_score BLACK adversarial_state) = 5 \<and>
   minimax toy T0 BLACK 3 BLACK = 5"
proof -
  have n: "never_expires adversarial_state"
    by (simp add: never_expires_def adversarial_state_def)
  have b: "\<forall>b. \<bar>evaluate toy b BLACK\<bar> \<le> INF_score"
    by (simp add: toy_evaluate_bounded)
  have m: "minimax toy T0 BLACK 3 BLACK = 5"
    by code_simp
  show ?thesis
    using alphaBeta_full_window_is_minimax[OF toy_sort_contract toy_makeMove_sound n b, of T0 BLACK 3]
      toy_sort_contract toy_makeMove_sound n m
    by simp
qed


section \<open>What the transposition table can change\<close>

lemma ttPromote_view:
  "ttPromote table h d ms =
    (case entry_view h (table h) of
       None \<Rightarrow> ms
     | Some (dep, bm) \<Rightarrow> if int d \<le> dep then bm # removeAll bm ms else ms)"
  by (simp add: ttPromote_def entry_view_def split: option.splits)

lemma same_view_ttPromote:
  "same_view s s' \<Longrightarrow>
   ttPromote (transpositionTable s) h d ms = ttPromote (transpositionTable s') h d ms"
  by (simp add: ttPromote_view same_view_def)

lemma same_view_isTimeUp:
  assumes "same_view s s'"
  shows "fst (isTimeUp s) = fst (isTimeUp s') \<and> same_view (snd (isTimeUp s)) (snd (isTimeUp s'))"
  using assms by (auto simp: same_view_def isTimeUp_def split: option.splits nat.splits)

lemma same_view_store:
  "same_view s s' \<Longrightarrow>
   same_view (s\<lparr>transpositionTable := (transpositionTable s)(h \<mapsto> TTEntry h d v bm)\<rparr>)
             (s'\<lparr>transpositionTable := (transpositionTable s')(h \<mapsto> TTEntry h d v' bm)\<rparr>)"
  by (simp add: same_view_def entry_view_def)

lemma alphaBeta_same_view:
  "\<forall>s'. same_view s s' \<longrightarrow>
     fst (alphaBeta env board currTurn d alpha beta perspective s) =
     fst (alphaBeta env board currTurn d alpha beta perspective s') \<and>
     same_view (snd (alphaBeta env board currTurn d alpha beta perspective s))
               (snd (alphaBeta env board currTurn d alpha beta perspective s'))"
  "\<forall>s'. same_view s s' \<longrightarrow>
     fst (alphaBeta_loop env board currTurn cd perspective ms alpha beta bestVal bestMove s) =
     fst (alphaBeta_loop env board currTurn cd perspective ms alpha beta bestVal bestMove s') \<and>
     same_view (snd (alphaBeta_loop env board currTurn cd perspective ms alpha beta bestVal bestMove s))
               (snd (alphaBeta_loop env board currTurn cd perspective ms alpha beta bestVal bestMove s'))"
proof (induction env board currTurn d alpha beta perspective s
    and env board currTurn cd perspective ms alpha beta bestVal bestMove s
    rule: alphaBeta_alphaBeta_loop.induct)
  case (1 env board currTurn d alpha beta perspective s)
  let ?my = "getValidMoves env board currTurn"
  let ?opp = "getValidMoves env board (opponent currTurn)"
  show ?case
  proof (intro allI impI)
    fix s'
    assume sv: "same_view s s'"
    obtain tu s1 where t: "(tu, s1) = isTimeUp s" by (metis surj_pair)
    obtain tu' s1' where t': "(tu', s1') = isTimeUp s'" by (metis surj_pair)
    from same_view_isTimeUp[OF sv] t[symmetric] t'[symmetric]
    have tu: "tu' = tu" and sv1: "same_view s1 s1'" by simp_all
    let ?goal = "fst (alphaBeta env board currTurn d alpha beta perspective s) =
        fst (alphaBeta env board currTurn d alpha beta perspective s') \<and>
        same_view (snd (alphaBeta env board currTurn d alpha beta perspective s))
                  (snd (alphaBeta env board currTurn d alpha beta perspective s'))"
    show ?goal
    proof (cases "tu \<or> d = 0 \<or> (?my = [] \<and> ?opp = [])")
      case True
      then have "alphaBeta env board currTurn d alpha beta perspective s =
                 (evaluate env board perspective, s1)"
        using t[symmetric] by (subst alphaBeta.simps) (auto simp: Let_def)
      moreover from True have "alphaBeta env board currTurn d alpha beta perspective s' =
                 (evaluate env board perspective, s1')"
        using t'[symmetric] tu by (subst alphaBeta.simps) (auto simp: Let_def)
      ultimately show ?thesis using sv1 by simp
    next
      case False
      then have ntu: "\<not> tu" and nleaf: "\<not> (d = 0 \<or> (?my = [] \<and> ?opp = []))" by auto
      show ?thesis
      proof (cases "?my = []")
        case True
        have "alphaBeta env board currTurn d alpha beta perspective s =
              alphaBeta env board (opponent currTurn) d alpha beta perspective s1"
          using t[symmetric] ntu nleaf True by (subst alphaBeta.simps) (simp add: Let_def)
        moreover have "alphaBeta env board currTurn d alpha beta perspective s' =
              alphaBeta env board (opponent currTurn) d alpha beta perspective s1'"
          using t'[symmetric] tu ntu nleaf True by (subst alphaBeta.simps) (simp add: Let_def)
        ultimately show ?thesis
          using "1.IH"(1)[OF t ntu refl refl nleaf True] sv1 by simp
      next
        case ne: False
        let ?h = "zobrist_hash env board"
        let ?ordered = "orderMoves env (ttPromote (transpositionTable s1) ?h d ?my) board currTurn"
        let ?bv = "if currTurn = perspective then - INF_score else INF_score"
        let ?loop = "alphaBeta_loop env board currTurn (d - 1) perspective ?ordered alpha beta ?bv
              (hd ?ordered)"
        have ord: "orderMoves env (ttPromote (transpositionTable s1') ?h d ?my) board currTurn = ?ordered"
          by (simp add: same_view_ttPromote[OF sv1])
        obtain bv bm s2 where l: "?loop s1 = ((bv, bm), s2)" by (metis surj_pair)
        obtain bv' bm' s2' where l': "?loop s1' = ((bv', bm'), s2')" by (metis surj_pair)
        from "1.IH"(2)[OF t ntu refl refl nleaf ne refl refl refl refl refl] sv1 l l'
        have eq: "bv' = bv" "bm' = bm" and sv2: "same_view s2 s2'" by auto
        obtain tu2 s3 where t2: "isTimeUp s2 = (tu2, s3)" by (metis surj_pair)
        obtain tu2' s3' where t2': "isTimeUp s2' = (tu2', s3')" by (metis surj_pair)
        from same_view_isTimeUp[OF sv2] t2 t2'
        have tu2: "tu2' = tu2" and sv3: "same_view s3 s3'" by simp_all
        let ?store = "\<lambda>s3. s3\<lparr>transpositionTable := (transpositionTable s3)
                              (?h \<mapsto> TTEntry ?h (int d) bv bm)\<rparr>"
        have r: "alphaBeta env board currTurn d alpha beta perspective s =
              (bv, if \<not> tu2 then ?store s3 else s3)"
          using t[symmetric] ntu nleaf ne l t2
          by (subst alphaBeta.simps) (simp add: Let_def)
        have r': "alphaBeta env board currTurn d alpha beta perspective s' =
              (bv, if \<not> tu2 then ?store s3' else s3')"
          using t'[symmetric] tu ntu nleaf ne l' t2' eq tu2 ord
          by (subst alphaBeta.simps) (simp add: Let_def)
        show ?thesis
          unfolding r r' using sv3 same_view_store[OF sv3] by simp
      qed
    qed
  qed
next
  case (2 env board currTurn cd perspective alpha beta bestVal bestMove s)
  then show ?case by (simp add: alphaBeta_loop.simps)
next
  case (3 env board currTurn cd perspective m ms alpha beta bestVal bestMove s)
  show ?case
  proof (intro allI impI)
    fix s'
    assume sv: "same_view s s'"
    obtain tu s1 where t: "(tu, s1) = isTimeUp s" by (metis surj_pair)
    obtain tu' s1' where t': "(tu', s1') = isTimeUp s'" by (metis surj_pair)
    from same_view_isTimeUp[OF sv] t[symmetric] t'[symmetric]
    have tu: "tu' = tu" and sv1: "same_view s1 s1'" by simp_all
    let ?L = "\<lambda>s. alphaBeta_loop env board currTurn cd perspective (m # ms) alpha beta
                 bestVal bestMove s"
    show "fst (?L s) = fst (?L s') \<and> same_view (snd (?L s)) (snd (?L s'))"
    proof (cases tu)
      case True
      have "?L s = ((bestVal, bestMove), s1)"
        using t[symmetric] True by (subst alphaBeta_loop.simps) simp
      moreover have "?L s' = ((bestVal, bestMove), s1')"
        using t'[symmetric] tu True by (subst alphaBeta_loop.simps) simp
      ultimately show ?thesis using sv1 by simp
    next
      case ntu: False
      show ?thesis
      proof (cases "makeMove env board currTurn m")
        case None
        have "?L s = alphaBeta_loop env board currTurn cd perspective ms alpha beta
                 bestVal bestMove s1"
          using t[symmetric] ntu None by (subst alphaBeta_loop.simps) simp
        moreover have "?L s' = alphaBeta_loop env board currTurn cd perspective ms alpha beta
                 bestVal bestMove s1'"
          using t'[symmetric] tu ntu None by (subst alphaBeta_loop.simps) simp
        ultimately show ?thesis
          using "3.IH"(1)[OF t ntu None] sv1 by simp
      next
        case (Some newBoard)
        obtain val s2 where call:
          "(val, s2) = alphaBeta env newBoard (opponent currTurn) cd alpha beta perspective s1"
          by (metis surj_pair)
        obtain val' s2' where call':
          "(val', s2') = alphaBeta env newBoard (opponent currTurn) cd alpha beta perspective s1'"
          by (metis surj_pair)
        from "3.IH"(2)[OF t ntu Some] sv1 call[symmetric] call'[symmetric]
        have val: "val' = val" and sv2: "same_view s2 s2'" by auto
        let ?mx = "currTurn = perspective"
        let ?bv = "if ?mx then if bestVal < val then val else bestVal
                   else if val < bestVal then val else bestVal"
        let ?bm = "if ?mx then if bestVal < val then m else bestMove
                   else if val < bestVal then m else bestMove"
        let ?a = "if ?mx then max alpha val else alpha"
        let ?b = "if ?mx then beta else min beta val"
        show ?thesis
        proof (cases "?b \<le> ?a")
          case True
          have "?L s = ((?bv, ?bm), s2)"
            using t[symmetric] ntu Some call[symmetric] True
            by (subst alphaBeta_loop.simps) (simp add: Let_def)
          moreover have "?L s' = ((?bv, ?bm), s2')"
            using t'[symmetric] tu ntu Some call'[symmetric] val True
            by (subst alphaBeta_loop.simps) (simp add: Let_def)
          ultimately show ?thesis using sv2 by simp
        next
          case False
          have "?L s = alphaBeta_loop env board currTurn cd perspective ms ?a ?b ?bv ?bm s2"
            using t[symmetric] ntu Some call[symmetric] False
            by (subst alphaBeta_loop.simps) (simp add: Let_def)
          moreover have "?L s' = alphaBeta_loop env board currTurn cd perspective ms ?a ?b ?bv ?bm s2'"
            using t'[symmetric] tu ntu Some call'[symmetric] val False
            by (subst alphaBeta_loop.simps) (simp add: Let_def)
          ultimately show ?thesis
            using "3.IH"(3)[OF t ntu Some call refl refl refl refl refl False] sv2 by simp
        qed
      qed
    qed
  qed
qed

lemma ttPromote_unusable:
  "table h = None \<or> (\<exists>e. table h = Some e \<and> \<not> (entry_hash e = h \<and> int d \<le> entry_depth e)) \<Longrightarrow>
   ttPromote table h d ms = ms"
  by (auto simp: ttPromote_def)

lemma ttPromote_usable:
  "table h = Some e \<Longrightarrow> entry_hash e = h \<Longrightarrow> int d \<le> entry_depth e \<Longrightarrow>
   ttPromote table h d ms = entry_bestMove e # removeAll (entry_bestMove e) ms"
  by (simp add: ttPromote_def)

lemma mset_move_to_front:
  "distinct ms \<Longrightarrow> bm \<in> set ms \<Longrightarrow> mset (bm # removeAll bm ms) = mset ms"
  by (simp add: distinct_remove1_removeAll[symmetric])

lemma alphaBeta_searchMoves:
  assumes "isTimeUp s = (False, s1)" and "d \<noteq> 0" and "getValidMoves env board currTurn \<noteq> []"
  shows "alphaBeta env board currTurn d alpha beta perspective s =
     searchMoves env board currTurn d alpha beta perspective
       (ttPromote (transpositionTable s1) (zobrist_hash env board) d (getValidMoves env board currTurn)) s1"
  using assms by (subst alphaBeta.simps) (simp add: searchMoves_def Let_def)

lemma same_view_zero_scores: "same_view s (zero_scores s)"
  by (simp add: same_view_def zero_scores_def entry_view_def split: option.splits)

text \<open>
  C7, as far as the code goes. A call of \<open>alphaBeta\<close> that finds the budget expired,
  or is at depth \<open>0\<close>, or at a position where neither side has a move, returns the
  static evaluation, and a call at a position where the side to move has to pass hands
  over to the other side: none of them reads the table. At a node that passed the check
  at entry, at a depth other than \<open>0\<close> and with a move to play, \<open>alphaBeta\<close> looks the
  table up under the hash of the position of the node:

    \<^item> with no entry there, or an entry whose stored hash is another one or whose
      stored depth is below the depth of the call, the node is searched from its legal
      moves as the framework enumerates them;

    \<^item> with an entry of that hash and of at least that depth, the node is searched from
      the list with the cached move put in front and erased from its old place: a
      rearrangement of the legal moves when the cached move is one of them.

  In both cases the score is the one the search of the node returns. The scores stored
  in the table never reach a result: two states that differ in the stored scores only
  give the same score.
\<close>

theorem table_entry_only_orders:
  "(isTimeUp s = (tu, s1) \<and>
    (tu \<or> d = 0 \<or> (getValidMoves env board currTurn = [] \<and>
                       getValidMoves env board (opponent currTurn) = [])) \<longrightarrow>
      alphaBeta env board currTurn d alpha beta perspective s =
        (evaluate env board perspective, s1)) \<and>
   (isTimeUp s = (False, s1) \<and> d \<noteq> 0 \<and> getValidMoves env board currTurn = [] \<and>
    getValidMoves env board (opponent currTurn) \<noteq> [] \<longrightarrow>
      alphaBeta env board currTurn d alpha beta perspective s =
        alphaBeta env board (opponent currTurn) d alpha beta perspective s1) \<and>
   (isTimeUp s = (False, s1) \<and> d \<noteq> 0 \<and> getValidMoves env board currTurn \<noteq> [] \<and>
    (transpositionTable s1 (zobrist_hash env board) = None \<or>
     (\<exists>e. transpositionTable s1 (zobrist_hash env board) = Some e \<and>
          \<not> (entry_hash e = zobrist_hash env board \<and> int d \<le> entry_depth e))) \<longrightarrow>
      alphaBeta env board currTurn d alpha beta perspective s =
        searchMoves env board currTurn d alpha beta perspective (getValidMoves env board currTurn) s1) \<and>
   (\<forall>e. isTimeUp s = (False, s1) \<and> d \<noteq> 0 \<and> getValidMoves env board currTurn \<noteq> [] \<and>
        transpositionTable s1 (zobrist_hash env board) = Some e \<and>
        entry_hash e = zobrist_hash env board \<and> int d \<le> entry_depth e \<longrightarrow>
      alphaBeta env board currTurn d alpha beta perspective s =
        searchMoves env board currTurn d alpha beta perspective
          (entry_bestMove e # removeAll (entry_bestMove e) (getValidMoves env board currTurn)) s1 \<and>
      (distinct (getValidMoves env board currTurn) \<and>
       entry_bestMove e \<in> set (getValidMoves env board currTurn) \<longrightarrow>
         mset (entry_bestMove e # removeAll (entry_bestMove e) (getValidMoves env board currTurn)) =
         mset (getValidMoves env board currTurn))) \<and>
   (same_view s s' \<longrightarrow>
      fst (alphaBeta env board currTurn d alpha beta perspective s) =
      fst (alphaBeta env board currTurn d alpha beta perspective s'))"
proof (intro conjI allI impI)
  assume "isTimeUp s = (tu, s1) \<and>
    (tu \<or> d = 0 \<or> (getValidMoves env board currTurn = [] \<and>
                       getValidMoves env board (opponent currTurn) = []))"
  then show "alphaBeta env board currTurn d alpha beta perspective s =
        (evaluate env board perspective, s1)"
    by (subst alphaBeta.simps) (auto simp: Let_def)
next
  assume "isTimeUp s = (False, s1) \<and> d \<noteq> 0 \<and> getValidMoves env board currTurn = [] \<and>
    getValidMoves env board (opponent currTurn) \<noteq> []"
  then show "alphaBeta env board currTurn d alpha beta perspective s =
        alphaBeta env board (opponent currTurn) d alpha beta perspective s1"
    by (subst alphaBeta.simps) (simp add: Let_def)
next
  let ?h = "zobrist_hash env board"
  let ?my = "getValidMoves env board currTurn"
  assume a: "isTimeUp s = (False, s1) \<and> d \<noteq> 0 \<and> ?my \<noteq> [] \<and>
    (transpositionTable s1 ?h = None \<or>
     (\<exists>e. transpositionTable s1 ?h = Some e \<and> \<not> (entry_hash e = ?h \<and> int d \<le> entry_depth e)))"
  then have "ttPromote (transpositionTable s1) ?h d ?my = ?my"
    by (intro ttPromote_unusable) blast
  with a show "alphaBeta env board currTurn d alpha beta perspective s =
        searchMoves env board currTurn d alpha beta perspective ?my s1"
    by (simp add: alphaBeta_searchMoves)
next
  fix e
  let ?h = "zobrist_hash env board"
  let ?my = "getValidMoves env board currTurn"
  assume a: "isTimeUp s = (False, s1) \<and> d \<noteq> 0 \<and> ?my \<noteq> [] \<and>
        transpositionTable s1 ?h = Some e \<and> entry_hash e = ?h \<and> int d \<le> entry_depth e"
  then have "ttPromote (transpositionTable s1) ?h d ?my = entry_bestMove e # removeAll (entry_bestMove e) ?my"
    by (simp add: ttPromote_usable)
  with a show "alphaBeta env board currTurn d alpha beta perspective s =
        searchMoves env board currTurn d alpha beta perspective
          (entry_bestMove e # removeAll (entry_bestMove e) ?my) s1"
    by (simp add: alphaBeta_searchMoves)
  assume "distinct ?my \<and> entry_bestMove e \<in> set ?my"
  then show "mset (entry_bestMove e # removeAll (entry_bestMove e) ?my) = mset ?my"
    by (simp only: mset_move_to_front)
next
  assume "same_view s s'"
  then show "fst (alphaBeta env board currTurn d alpha beta perspective s) =
      fst (alphaBeta env board currTurn d alpha beta perspective s')"
    using alphaBeta_same_view(1)[of s env board currTurn d alpha beta perspective] by simp
qed

theorem table_entry_only_orders_witness:
  "alphaBeta toy T4 BLACK 1 (- INF_score) INF_score BLACK
       (snd (alphaBeta toy T0 BLACK 1 (- INF_score) INF_score BLACK (start_state None))) =
     (0, snd (alphaBeta toy T0 BLACK 1 (- INF_score) INF_score BLACK (start_state None))) \<and>
   alphaBeta toy T3 RED 2 (- INF_score) INF_score BLACK
       (snd (alphaBeta toy T0 BLACK 1 (- INF_score) INF_score BLACK (start_state None))) =
     alphaBeta toy T3 BLACK 2 (- INF_score) INF_score BLACK
       (snd (alphaBeta toy T0 BLACK 1 (- INF_score) INF_score BLACK (start_state None))) \<and>
   transpositionTable (snd (alphaBeta toy T0 BLACK 1 (- INF_score) INF_score BLACK (start_state None)))
     (zobrist_hash toy T0) = Some (TTEntry (zobrist_hash toy T0) 1 41 (Move 2 3)) \<and>
   getValidMoves toy T0 BLACK = [Move 1 1, Move 2 3, Move 0 0] \<and>
   alphaBeta toy T0 BLACK 2 (- INF_score) INF_score BLACK
       (snd (alphaBeta toy T0 BLACK 1 (- INF_score) INF_score BLACK (start_state None))) =
     searchMoves toy T0 BLACK 2 (- INF_score) INF_score BLACK [Move 1 1, Move 2 3, Move 0 0]
       (snd (alphaBeta toy T0 BLACK 1 (- INF_score) INF_score BLACK (start_state None))) \<and>
   alphaBeta toy T0 BLACK 1 (- INF_score) INF_score BLACK
       (snd (alphaBeta toy T0 BLACK 1 (- INF_score) INF_score BLACK (start_state None))) =
     searchMoves toy T0 BLACK 1 (- INF_score) INF_score BLACK [Move 2 3, Move 1 1, Move 0 0]
       (snd (alphaBeta toy T0 BLACK 1 (- INF_score) INF_score BLACK (start_state None))) \<and>
   mset [Move 2 3, Move 1 1, Move 0 0] = mset [Move 1 1, Move 2 3, Move 0 0] \<and>
   same_view (snd (alphaBeta toy T0 BLACK 1 (- INF_score) INF_score BLACK (start_state None)))
     (zero_scores (snd (alphaBeta toy T0 BLACK 1 (- INF_score) INF_score BLACK (start_state None)))) \<and>
   fst (alphaBeta toy T0 BLACK 2 (- INF_score) INF_score BLACK
         (snd (alphaBeta toy T0 BLACK 1 (- INF_score) INF_score BLACK (start_state None)))) = 5 \<and>
   fst (alphaBeta toy T0 BLACK 2 (- INF_score) INF_score BLACK
         (zero_scores (snd (alphaBeta toy T0 BLACK 1 (- INF_score) INF_score BLACK (start_state None))))) = 5"
proof -
  let ?s = "snd (alphaBeta toy T0 BLACK 1 (- INF_score) INF_score BLACK (start_state None))"
  let ?h = "zobrist_hash toy T0"
  let ?e = "TTEntry ?h 1 41 (Move 2 3)"
  have en: "transpositionTable ?s ?h = Some ?e"
    by code_simp
  have my: "getValidMoves toy T0 BLACK = [Move 1 1, Move 2 3, Move 0 0]"
    by code_simp
  have "\<not> timeoutFlag ?s" and "clock ?s = None"
    by code_simp+
  then have t: "isTimeUp ?s = (False, ?s)"
    by (simp add: isTimeUp_def)
  have sv: "same_view ?s (zero_scores ?s)"
    by (rule same_view_zero_scores)
  have run: "fst (alphaBeta toy T0 BLACK 2 (- INF_score) INF_score BLACK (zero_scores ?s)) = 5"
    by code_simp
  note leaf = table_entry_only_orders[where s = ?s and ?s1.0 = ?s and tu = False and d = 1 and env = toy
      and board = T4 and currTurn = BLACK and alpha = "- INF_score" and beta = INF_score
      and perspective = BLACK and s' = "zero_scores ?s"]
  note pass = table_entry_only_orders[where s = ?s and ?s1.0 = ?s and tu = False and d = 2 and env = toy
      and board = T3 and currTurn = RED and alpha = "- INF_score" and beta = INF_score
      and perspective = BLACK and s' = "zero_scores ?s"]
  note deep = table_entry_only_orders[where s = ?s and ?s1.0 = ?s and tu = False and d = 2 and env = toy
      and board = T0 and currTurn = BLACK and alpha = "- INF_score" and beta = INF_score
      and perspective = BLACK and s' = "zero_scores ?s"]
  note same = table_entry_only_orders[where s = ?s and ?s1.0 = ?s and tu = False and d = 1 and env = toy
      and board = T0 and currTurn = BLACK and alpha = "- INF_score" and beta = INF_score
      and perspective = BLACK and s' = "zero_scores ?s"]
  have over: "getValidMoves toy T4 BLACK = [] \<and> getValidMoves toy T4 (opponent BLACK) = [] \<and>
      evaluate toy T4 BLACK = 0"
    by code_simp
  have mover: "getValidMoves toy T3 RED = [] \<and> getValidMoves toy T3 (opponent RED) \<noteq> [] \<and>
      opponent RED = BLACK"
    by code_simp
  from leaf t over have l: "alphaBeta toy T4 BLACK 1 (- INF_score) INF_score BLACK ?s = (0, ?s)"
    by simp
  from pass t mover have p: "alphaBeta toy T3 RED 2 (- INF_score) INF_score BLACK ?s =
      alphaBeta toy T3 BLACK 2 (- INF_score) INF_score BLACK ?s"
    by simp
  have low: "transpositionTable ?s ?h = None \<or>
     (\<exists>e. transpositionTable ?s ?h = Some e \<and> \<not> (entry_hash e = ?h \<and> int 2 \<le> entry_depth e))"
    using en by simp
  from deep t my low have a: "alphaBeta toy T0 BLACK 2 (- INF_score) INF_score BLACK ?s =
     searchMoves toy T0 BLACK 2 (- INF_score) INF_score BLACK [Move 1 1, Move 2 3, Move 0 0] ?s"
    by simp
  have hit: "isTimeUp ?s = (False, ?s) \<and> (1 :: nat) \<noteq> 0 \<and> getValidMoves toy T0 BLACK \<noteq> [] \<and>
        transpositionTable ?s ?h = Some ?e \<and> entry_hash ?e = ?h \<and> int 1 \<le> entry_depth ?e"
    using t my en by simp
  from same hit have "alphaBeta toy T0 BLACK 1 (- INF_score) INF_score BLACK ?s =
        searchMoves toy T0 BLACK 1 (- INF_score) INF_score BLACK
          (entry_bestMove ?e # removeAll (entry_bestMove ?e) (getValidMoves toy T0 BLACK)) ?s \<and>
      (distinct (getValidMoves toy T0 BLACK) \<and> entry_bestMove ?e \<in> set (getValidMoves toy T0 BLACK) \<longrightarrow>
         mset (entry_bestMove ?e # removeAll (entry_bestMove ?e) (getValidMoves toy T0 BLACK)) =
         mset (getValidMoves toy T0 BLACK))"
    by blast
  then have b: "alphaBeta toy T0 BLACK 1 (- INF_score) INF_score BLACK ?s =
        searchMoves toy T0 BLACK 1 (- INF_score) INF_score BLACK [Move 2 3, Move 1 1, Move 0 0] ?s"
    and c: "mset [Move 2 3, Move 1 1, Move 0 0] = mset [Move 1 1, Move 2 3, Move 0 0]"
    by (simp_all add: my)
  from deep sv have "fst (alphaBeta toy T0 BLACK 2 (- INF_score) INF_score BLACK ?s) =
      fst (alphaBeta toy T0 BLACK 2 (- INF_score) INF_score BLACK (zero_scores ?s))"
    by blast
  with run have d: "fst (alphaBeta toy T0 BLACK 2 (- INF_score) INF_score BLACK ?s) = 5"
    by simp
  from l p en my a b c sv d run show ?thesis by (intro conjI)
qed

lemma zobrist_hash_cong:
  "getBlackCount env b = getBlackCount env b' \<Longrightarrow> getRedCount env b = getRedCount env b' \<Longrightarrow>
   getValidMoves env b BLACK = getValidMoves env b' BLACK \<Longrightarrow>
   getValidMoves env b RED = getValidMoves env b' RED \<Longrightarrow>
   zobrist_hash env b = zobrist_hash env b'"
  by (simp add: zobrist_hash_def)

lemma twin_same_hash:
  "zobrist_hash (twin\<lparr>zobristTable := zt\<rparr>) Q3 = zobrist_hash (twin\<lparr>zobristTable := zt\<rparr>) Q4"
  by (rule zobrist_hash_cong) (simp_all add: twin_def)

text \<open>
  C7 as stated fails where the entry is the one of another position with the same hash:
  the cached move is put in front although the node does not have it, and the list that
  goes to the orderer has one move more. The hash is computed from the two piece counts
  and the two lists of legal moves, so \<open>Q3\<close> and \<open>Q4\<close> of the game \<open>twin\<close> have the same
  hash whatever the Zobrist table is (\<open>twin_same_hash\<close>), and a search of \<open>Q0\<close> to depth
  \<open>3\<close> from the empty table meets both. The loop at \<open>Q0\<close> takes \<open>(3,2)\<close> first: \<open>RED\<close>
  passes, \<open>BLACK\<close> plays \<open>(2,3)\<close>, and the search of \<open>Q4\<close> at depth \<open>1\<close> stores the move
  \<open>(0,0)\<close> of \<open>RED\<close>. The second move \<open>(2,3)\<close> of the loop leads by \<open>(3,2)\<close> to \<open>Q3\<close>, at
  depth \<open>1\<close> with \<open>BLACK\<close> to move and the window \<open>(1, INF)\<close>. The lookup finds the entry
  of \<open>Q4\<close>, and the search of \<open>Q3\<close> runs on \<open>(0,0)\<close>, which \<open>BLACK\<close> cannot play there,
  and \<open>(1,1)\<close>.
\<close>

theorem stale_cached_move_is_inserted:
  "orderMoves twin (getValidMoves twin Q0 BLACK) Q0 BLACK = [Move 3 2, Move 2 3] \<and>
   makeMove twin Q0 BLACK (Move 2 3) = Some Q1 \<and>
   getValidMoves twin Q1 RED = [Move 3 2] \<and>
   makeMove twin Q1 RED (Move 3 2) = Some Q3 \<and>
   getValidMoves twin Q3 BLACK = [Move 1 1] \<and>
   makeMove twin Q3 BLACK (Move 0 0) = None \<and>
   zobrist_hash twin Q4 = zobrist_hash twin Q3 \<and>
   transpositionTable
     (snd (alphaBeta_loop twin Q0 BLACK 2 BLACK [Move 3 2] (- INF_score) INF_score
            (- INF_score) (Move 3 2) (start_state None)))
     (zobrist_hash twin Q3) = Some (TTEntry (zobrist_hash twin Q4) 1 1 (Move 0 0)) \<and>
   ttPromote
     (transpositionTable
       (snd (alphaBeta_loop twin Q0 BLACK 2 BLACK [Move 3 2] (- INF_score) INF_score
              (- INF_score) (Move 3 2) (start_state None))))
     (zobrist_hash twin Q3) 1 (getValidMoves twin Q3 BLACK) = [Move 0 0, Move 1 1] \<and>
   alphaBeta twin Q3 BLACK 1 1 INF_score BLACK
     (snd (alphaBeta_loop twin Q0 BLACK 2 BLACK [Move 3 2] (- INF_score) INF_score
            (- INF_score) (Move 3 2) (start_state None))) =
   searchMoves twin Q3 BLACK 1 1 INF_score BLACK [Move 0 0, Move 1 1]
     (snd (alphaBeta_loop twin Q0 BLACK 2 BLACK [Move 3 2] (- INF_score) INF_score
            (- INF_score) (Move 3 2) (start_state None)))"
proof -
  let ?s = "snd (alphaBeta_loop twin Q0 BLACK 2 BLACK [Move 3 2] (- INF_score) INF_score
            (- INF_score) (Move 3 2) (start_state None))"
  have game: "orderMoves twin (getValidMoves twin Q0 BLACK) Q0 BLACK = [Move 3 2, Move 2 3] \<and>
   makeMove twin Q0 BLACK (Move 2 3) = Some Q1 \<and>
   getValidMoves twin Q1 RED = [Move 3 2] \<and>
   makeMove twin Q1 RED (Move 3 2) = Some Q3 \<and>
   getValidMoves twin Q3 BLACK = [Move 1 1] \<and>
   makeMove twin Q3 BLACK (Move 0 0) = None \<and>
   zobrist_hash twin Q4 = zobrist_hash twin Q3"
    by code_simp
  have en: "transpositionTable ?s (zobrist_hash twin Q3) =
      Some (TTEntry (zobrist_hash twin Q4) 1 1 (Move 0 0))"
    by code_simp
  have pr: "ttPromote (transpositionTable ?s) (zobrist_hash twin Q3) 1 (getValidMoves twin Q3 BLACK) =
      [Move 0 0, Move 1 1]"
    by code_simp
  have "\<not> timeoutFlag ?s" and "clock ?s = None"
    by code_simp+
  then have t: "isTimeUp ?s = (False, ?s)"
    by (simp add: isTimeUp_def)
  have my: "getValidMoves twin Q3 BLACK \<noteq> []"
    using game by simp
  have node: "alphaBeta twin Q3 BLACK 1 1 INF_score BLACK ?s =
      searchMoves twin Q3 BLACK 1 1 INF_score BLACK [Move 0 0, Move 1 1] ?s"
    using alphaBeta_searchMoves[OF t _ my, of 1 1 INF_score BLACK] pr by simp
  from game en pr node show ?thesis by simp
qed

end
